theory Spec2Isabelle
  imports Main "HOL-Library.Sublist" "HOL-Library.Multiset"
begin

section \<open>Data model of package httpclient\<close>

text \<open>
  Go strings and byte slices are both sequences of bytes; \<open>string(bytes)\<close> keeps the bytes
  as they are. Both are modelled as \<^typ>\<open>string\<close> (a list of 8-bit characters), and a nil
  slice as the empty list.
\<close>

type_synonym bytes = string

text \<open>\<open>type Error struct { Message string; StatusCode int; URL string }\<close>\<close>

record Error =
  Message :: string
  StatusCode :: int
  URL :: string

text \<open>
  A value of Go's interface type \<open>error\<close>, by dynamic type. \<open>nil\<close> is \<open>None\<close> of
  \<open>go_error option\<close>.
  \<^item> \<open>HttpclientError\<close>: a \<open>*httpclient.Error\<close>, the package's own error type;
  \<^item> \<open>TransportError\<close>: what \<open>http.Client.Get\<close> returns when the request fails, with its text;
  \<^item> \<open>ReadError\<close>: what reading a response body returns when it fails, with its text;
  \<^item> \<open>JSONSyntaxError\<close>: a \<open>*json.SyntaxError\<close>, with its text;
  \<^item> \<open>DecodeError\<close>: any other error of a decoder (a type mismatch of \<open>encoding/json\<close>,
    every error of \<open>encoding/xml\<close>), with its text.
\<close>

datatype go_error =
    HttpclientError Error
  | TransportError string
  | ReadError string
  | JSONSyntaxError string
  | DecodeError string

text \<open>The method \<open>Error()\<close> of each; for \<open>*Error\<close> it returns \<open>e.Message\<close>.\<close>

fun Error_text :: "go_error \<Rightarrow> string" where
  "Error_text (HttpclientError e) = Message e"
| "Error_text (TransportError m) = m"
| "Error_text (ReadError m) = m"
| "Error_text (JSONSyntaxError m) = m"
| "Error_text (DecodeError m) = m"

text \<open>\<open>type File struct { Name string; Data []byte }\<close>\<close>

record File =
  Name :: string
  Data :: bytes

text \<open>
  A response body (\<open>io.ReadCloser\<close>): the bytes it delivers and, when reading it fails
  after them, the text of the error. \<open>ioutil.ReadAll\<close> returns the bytes read until the
  error or the end, and the error.
\<close>

record ReadCloser =
  content :: bytes
  read_error :: "string option"

definition ReadAll :: "ReadCloser \<Rightarrow> bytes \<times> go_error option" where
  "ReadAll r = (content r, map_option ReadError (read_error r))"

text \<open>
  The fields of \<open>*http.Response\<close> that the package reads: \<open>resp.StatusCode\<close>,
  \<open>resp.Request.URL.String()\<close> (the URL of the request that produced this response: after
  redirects and parsing it need not be the string handed to \<open>Get\<close>), and \<open>resp.Body\<close>.
\<close>

record Response =
  RespStatusCode :: int
  RequestURL :: string
  Body :: ReadCloser

text \<open>
  The collaborators the package calls and does not implement: \<open>http.Client.Get\<close>
  (\<open>Inl\<close> the text of its error) and the decoders of \<open>encoding/json\<close> and
  \<open>encoding/xml\<close>, which read a body into a target of type \<open>'v\<close> and return the target as
  they left it, and their error.
\<close>

record 'v Client =
  client_Get :: "string \<Rightarrow> string + Response"
  json_Decode :: "ReadCloser \<Rightarrow> 'v \<Rightarrow> 'v \<times> go_error option"
  xml_Decode :: "ReadCloser \<Rightarrow> 'v \<Rightarrow> 'v \<times> go_error option"

section \<open>Formatting\<close>

text \<open>\<open>fmt.Sprintf\<close> with the verb \<open>%d\<close>: an integer in decimal.\<close>

definition digit :: "nat \<Rightarrow> char" where
  "digit d = char_of (48 + d)"

fun decimal :: "nat \<Rightarrow> string" where
  "decimal n = (if n < 10 then [digit n] else decimal (n div 10) @ [digit (n mod 10)])"

declare decimal.simps [simp del]

definition Sprintf_d :: "int \<Rightarrow> string" where
  "Sprintf_d i = (if i < 0 then CHR ''-'' # decimal (nat (- i)) else decimal (nat i))"

section \<open>The single-request operations\<close>

text \<open>\<open>func (c *Client) err(resp *http.Response, message string) error\<close>\<close>

definition Client_err :: "Response \<Rightarrow> string \<Rightarrow> go_error" where
  "Client_err resp message =
     (let message' = (if message = [] then
                        ''Get '' @ RequestURL resp @ '' -> '' @ Sprintf_d (RespStatusCode resp)
                      else message)
      in HttpclientError \<lparr>Message = message', StatusCode = RespStatusCode resp,
                          URL = RequestURL resp\<rparr>)"

text \<open>\<open>func (c *Client) Get(url string) (*http.Response, error)\<close>\<close>

definition Client_Get :: "'v Client \<Rightarrow> string \<Rightarrow> go_error + Response" where
  "Client_Get c url = (case client_Get c url of Inl m \<Rightarrow> Inl (TransportError m) | Inr resp \<Rightarrow> Inr resp)"

text \<open>\<open>func (c *Client) Bytes(url string) ([]byte, error)\<close>: both values it returns.\<close>

definition Client_Bytes :: "'v Client \<Rightarrow> string \<Rightarrow> bytes \<times> go_error option" where
  "Client_Bytes c url =
     (case Client_Get c url of
        Inl err \<Rightarrow> ([], Some err)
      | Inr resp \<Rightarrow>
          if RespStatusCode resp \<noteq> 200 then ([], Some (Client_err resp []))
          else ReadAll (Body resp))"

text \<open>\<open>func (c *Client) String(url string) (string, error)\<close>\<close>

definition Client_String :: "'v Client \<Rightarrow> string \<Rightarrow> string \<times> go_error option" where
  "Client_String c url =
     (case Client_Bytes c url of
        (bs, Some err) \<Rightarrow> ([], Some err)
      | (bs, None) \<Rightarrow> (bs, None))"

text \<open>\<open>func (c *Client) Reader(url string) (io.ReadCloser, error)\<close>\<close>

definition Client_Reader :: "'v Client \<Rightarrow> string \<Rightarrow> ReadCloser option \<times> go_error option" where
  "Client_Reader c url =
     (case Client_Get c url of
        Inl err \<Rightarrow> (None, Some err)
      | Inr resp \<Rightarrow>
          if RespStatusCode resp \<noteq> 200 then (None, Some (Client_err resp []))
          else (Some (Body resp), None))"

text \<open>
  \<open>func (c *Client) JSON(url string, v interface{}) error\<close>: the target as the call leaves
  it, and the error.
\<close>

definition Client_JSON :: "'v Client \<Rightarrow> string \<Rightarrow> 'v \<Rightarrow> 'v \<times> go_error option" where
  "Client_JSON c url v =
     (case Client_Get c url of
        Inl err \<Rightarrow> (v, Some err)
      | Inr resp \<Rightarrow>
          if RespStatusCode resp \<noteq> 200 then (v, Some (Client_err resp []))
          else (case json_Decode c (Body resp) v of
                  (v', Some (JSONSyntaxError m)) \<Rightarrow>
                    (v', Some (Client_err resp (''JSON syntax error at '' @ url)))
                | (v', err) \<Rightarrow> (v', err)))"

text \<open>\<open>func (c *Client) XML(url string, v interface{}) error\<close>\<close>

definition Client_XML :: "'v Client \<Rightarrow> string \<Rightarrow> 'v \<Rightarrow> 'v \<times> go_error option" where
  "Client_XML c url v =
     (case Client_Get c url of
        Inl err \<Rightarrow> (v, Some err)
      | Inr resp \<Rightarrow>
          if RespStatusCode resp \<noteq> 200 then (v, Some (Client_err resp []))
          else xml_Decode c (Body resp) v)"

text \<open>
  The package-level functions call the same methods on the package's default client
  \<open>var client\<close>, here the argument \<open>c\<close>.
\<close>

definition Bytes :: "'v Client \<Rightarrow> string \<Rightarrow> bytes \<times> go_error option" where
  "Bytes c url = Client_Bytes c url"

definition String :: "'v Client \<Rightarrow> string \<Rightarrow> string \<times> go_error option" where
  "String c url = Client_String c url"

definition Reader :: "'v Client \<Rightarrow> string \<Rightarrow> ReadCloser option \<times> go_error option" where
  "Reader c url = Client_Reader c url"

definition JSON :: "'v Client \<Rightarrow> string \<Rightarrow> 'v \<Rightarrow> 'v \<times> go_error option" where
  "JSON c url v = Client_JSON c url v"

text \<open>\<open>func XML(url string, v interface{}) error { return client.JSON(url, v) }\<close>\<close>

definition XML :: "'v Client \<Rightarrow> string \<Rightarrow> 'v \<Rightarrow> 'v \<times> go_error option" where
  "XML c url v = Client_JSON c url v"

section \<open>The batch operation\<close>

text \<open>
  \<open>files []*File\<close> is a slice of pointers: an element is \<open>nil\<close> (\<open>None\<close>) or the address
  of a \<open>File\<close> in the heap, and two elements may hold the same address.
\<close>

type_synonym addr = nat
type_synonym heap = "addr \<Rightarrow> File"

datatype panic = IndexOutOfRange | NilDereference

text \<open>
  \<open>Files\<close> starts one goroutine per index of \<open>files\<close> and then receives from the channel
  \<open>ch\<close>. The goroutines and the caller interleave, so the call is modelled by the steps its
  threads take, in the order a schedule gives:
  \<^item> the goroutine of index \<open>i\<close> is \<open>Launched\<close>; its first step runs its body up to the
    send (lines 133 to 149: the \<open>Get\<close>, the status check, \<open>ReadAll\<close> and the assignment to
    \<open>files[i].Data\<close>), its second step is the send on \<open>ch\<close>, after which it is \<open>Finished\<close>.
    The channel has room for one value per goroutine, so a send never waits;
  \<^item> the caller has \<open>k\<close> receives left (\<open>Draining k\<close>); a step receives the oldest value of
    the channel (none when the channel is empty: the caller waits), returns it when it is an
    error, and returns \<open>nil\<close> when no receive is left;
  \<^item> a panic in any goroutine ends the program (\<open>crashed\<close>).
  \<open>gets\<close> records the URLs handed to \<open>c.Get\<close>, in the order of the calls.
\<close>

datatype tid = Main | Task nat

datatype task_state = Launched | Sending "go_error option" | Finished

datatype main_state = Draining nat | Returned "go_error option"

record files_state =
  tasks :: "task_state list"
  heap :: heap
  chan :: "go_error option list"
  main :: main_state
  gets :: "string list"
  crashed :: "panic option"

text \<open>The body of the goroutine of index \<open>i\<close>, up to its send.\<close>

definition run_task :: "'v Client \<Rightarrow> string list \<Rightarrow> addr option list \<Rightarrow> nat \<Rightarrow> files_state \<Rightarrow> files_state" where
  "run_task c urls files i s =
     (if length urls \<le> i then s\<lparr>crashed := Some IndexOutOfRange\<rparr>
      else
        let s1 = s\<lparr>gets := gets s @ [urls ! i]\<rparr> in
        case Client_Get c (urls ! i) of
          Inl err \<Rightarrow> s1\<lparr>tasks := (tasks s)[i := Sending (Some err)]\<rparr>
        | Inr resp \<Rightarrow>
            if RespStatusCode resp \<noteq> 200 then
              s1\<lparr>tasks := (tasks s)[i := Sending (Some (Client_err resp []))]\<rparr>
            else
              (case ReadAll (Body resp) of
                 (p, err) \<Rightarrow>
                   (case files ! i of
                      None \<Rightarrow> s1\<lparr>crashed := Some NilDereference\<rparr>
                    | Some a \<Rightarrow>
                        let s2 = s1\<lparr>heap := (heap s)(a := (heap s a)\<lparr>Data := p\<rparr>)\<rparr> in
                        (case err of
                           Some e \<Rightarrow>
                             s2\<lparr>tasks := (tasks s)[i := Sending (Some (Client_err resp (Error_text e)))]\<rparr>
                         | None \<Rightarrow> s2\<lparr>tasks := (tasks s)[i := Sending None]\<rparr>))))"

text \<open>One step of the caller's loop \<open>for range files { if err := <-ch; err != nil { return err } }\<close>.\<close>

definition main_step :: "files_state \<Rightarrow> files_state" where
  "main_step s =
     (case main s of
        Returned r \<Rightarrow> s
      | Draining k \<Rightarrow>
          if k = 0 then s\<lparr>main := Returned None\<rparr>
          else
            (case chan s of
               [] \<Rightarrow> s
             | m # ms \<Rightarrow>
                 (case m of
                    Some err \<Rightarrow> s\<lparr>chan := ms, main := Returned (Some err)\<rparr>
                  | None \<Rightarrow> s\<lparr>chan := ms, main := Draining (k - 1)\<rparr>)))"

definition step :: "'v Client \<Rightarrow> string list \<Rightarrow> addr option list \<Rightarrow> tid \<Rightarrow> files_state \<Rightarrow> files_state" where
  "step c urls files t s =
     (if crashed s \<noteq> None then s
      else
        case t of
          Main \<Rightarrow> main_step s
        | Task i \<Rightarrow>
            if i < length files \<and> i < length (tasks s) then
              (case tasks s ! i of
                 Launched \<Rightarrow> run_task c urls files i s
               | Sending m \<Rightarrow> s\<lparr>tasks := (tasks s)[i := Finished], chan := chan s @ [m]\<rparr>
               | Finished \<Rightarrow> s)
            else s)"

text \<open>
  The state when the caller has made the channel and started the goroutines
  (\<open>for i := range files { go func(i int) {...}(i) }\<close>).
\<close>

definition Files_init :: "addr option list \<Rightarrow> heap \<Rightarrow> files_state" where
  "Files_init files h =
     \<lparr>tasks = replicate (length files) Launched, heap = h, chan = [],
      main = Draining (length files), gets = [], crashed = None\<rparr>"

text \<open>
  \<open>func (c *Client) Files(urls []string, files []*File) error\<close> under a schedule: the state
  after the threads have taken the steps of \<open>sched\<close> in that order. The call has returned
  \<open>r\<close> when \<open>main\<close> is \<open>Returned r\<close>.
\<close>

definition Client_Files :: "'v Client \<Rightarrow> string list \<Rightarrow> addr option list \<Rightarrow> heap \<Rightarrow> tid list \<Rightarrow> files_state" where
  "Client_Files c urls files h sched = fold (step c urls files) sched (Files_init files h)"

text \<open>\<open>func (c *Client) Download(urls []string, files []*File) error\<close>\<close>

definition Client_Download :: "'v Client \<Rightarrow> string list \<Rightarrow> addr option list \<Rightarrow> heap \<Rightarrow> tid list \<Rightarrow> files_state" where
  "Client_Download c urls files h sched = Client_Files c urls files h sched"

definition Files :: "'v Client \<Rightarrow> string list \<Rightarrow> addr option list \<Rightarrow> heap \<Rightarrow> tid list \<Rightarrow> files_state" where
  "Files c urls files h sched = Client_Files c urls files h sched"

definition Download :: "'v Client \<Rightarrow> string list \<Rightarrow> addr option list \<Rightarrow> heap \<Rightarrow> tid list \<Rightarrow> files_state" where
  "Download c urls files h sched = Client_Files c urls files h sched"

text \<open>
  A schedule that lets every goroutine take its two steps and then the caller take all of
  its steps: appended to any schedule, it runs the call to its end.
\<close>

definition run_to_end :: "addr option list \<Rightarrow> tid list" where
  "run_to_end files =
     concat (map (\<lambda>i. [Task i, Task i]) [0..<length files]) @ replicate (Suc (length files)) Main"

section \<open>Invariants of the batch operation\<close>

text \<open>The type assertions \<open>err.(*Error)\<close> and "is an error of the transport".\<close>

fun is_Error :: "go_error \<Rightarrow> bool" where
  "is_Error (HttpclientError e) = True"
| "is_Error _ = False"

fun is_TransportError :: "go_error \<Rightarrow> bool" where
  "is_TransportError (TransportError m) = True"
| "is_TransportError _ = False"

text \<open>
  What a goroutine may send: \<open>nil\<close>, an \<open>*Error\<close> or the error of the transport. Every
  value in a goroutine's hands, in the channel or returned by the caller is of this kind.
\<close>

definition reported :: "go_error option \<Rightarrow> bool" where
  "reported m = (case m of None \<Rightarrow> True | Some e \<Rightarrow> is_Error e \<or> is_TransportError e)"

definition reports_inv :: "files_state \<Rightarrow> bool" where
  "reports_inv s =
     ((\<forall>t\<in>set (tasks s). case t of Sending m \<Rightarrow> reported m | _ \<Rightarrow> True)
      \<and> (\<forall>m\<in>set (chan s). reported m)
      \<and> (case main s of Returned r \<Rightarrow> reported r | Draining k \<Rightarrow> True))"

text \<open>
  The goroutines that have run their body, and the invariant of a call that cannot panic:
  the GETs issued so far are those of the URLs of these goroutines, one for each.
\<close>

definition started :: "addr option list \<Rightarrow> files_state \<Rightarrow> nat set" where
  "started files s = {i. i < length files \<and> tasks s ! i \<noteq> Launched}"

definition gets_inv :: "string list \<Rightarrow> addr option list \<Rightarrow> files_state \<Rightarrow> bool" where
  "gets_inv urls files s =
     (crashed s = None \<and> length (tasks s) = length files
      \<and> mset (gets s) = image_mset ((!) urls) (mset_set (started files s)))"

text \<open>
  A batch in which nothing can go wrong: as many files as URLs, the files' pointers non-nil
  and pairwise different, and \<open>Bytes\<close> succeeds on every URL.
\<close>

definition batch_ok :: "'v Client \<Rightarrow> string list \<Rightarrow> addr option list \<Rightarrow> bool" where
  "batch_ok c urls files =
     (length files = length urls \<and> distinct files \<and> (\<forall>f\<in>set files. f \<noteq> None)
      \<and> (\<forall>u\<in>set urls. snd (Client_Bytes c u) = None))"

text \<open>The file of index \<open>i\<close> holds what \<open>Bytes\<close> returns for the URL of index \<open>i\<close>.\<close>

definition fetched :: "'v Client \<Rightarrow> string list \<Rightarrow> addr option list \<Rightarrow> heap \<Rightarrow> nat \<Rightarrow> bool" where
  "fetched c urls files hp i =
     (case files ! i of
        Some a \<Rightarrow> Data (hp a) = fst (Client_Bytes c (urls ! i))
      | None \<Rightarrow> False)"

definition finished_count :: "files_state \<Rightarrow> nat" where
  "finished_count s = length (filter (\<lambda>t. t = Finished) (tasks s))"

text \<open>
  The invariant of such a batch: no panic; a goroutine that has run its body has written
  its file and sends \<open>nil\<close>; the channel holds only \<open>nil\<close>; the goroutines that have sent
  are those whose value the caller has received or that the channel still holds; and the
  caller, once it has returned, has returned \<open>nil\<close> with every goroutine finished.
\<close>

definition all_ok_inv :: "'v Client \<Rightarrow> string list \<Rightarrow> addr option list \<Rightarrow> files_state \<Rightarrow> bool" where
  "all_ok_inv c urls files s =
     (crashed s = None \<and> length (tasks s) = length files
      \<and> (\<forall>i<length files. tasks s ! i = Launched
             \<or> ((tasks s ! i = Sending None \<or> tasks s ! i = Finished) \<and> fetched c urls files (heap s) i))
      \<and> (\<forall>m\<in>set (chan s). m = None)
      \<and> (case main s of
            Draining k \<Rightarrow> k \<le> length files \<and> finished_count s + k = length files + length (chan s)
          | Returned r \<Rightarrow> r = None \<and> chan s = [] \<and> finished_count s = length files))"

section \<open>Concrete clients\<close>

text \<open>
  Small servers and transports on which the operations are evaluated. Their decode targets
  are strings.
\<close>

definition no_Decode :: "ReadCloser \<Rightarrow> string \<Rightarrow> string \<times> go_error option" where
  "no_Decode b v = (v, None)"

text \<open>A server that redirects \<open>/old\<close> to \<open>/new\<close>, where nothing is found.\<close>

definition moved_response :: Response where
  "moved_response =
     \<lparr>RespStatusCode = 404, RequestURL = ''http://a/new'',
      Body = \<lparr>content = ''not found'', read_error = None\<rparr>\<rparr>"

definition redirecting_client :: "string Client" where
  "redirecting_client =
     \<lparr>client_Get = (\<lambda>url. if url = ''http://a/old'' then Inr moved_response
                           else Inl ''no such host''),
      json_Decode = no_Decode, xml_Decode = no_Decode\<rparr>"

text \<open>A server with one XML document, which is not JSON.\<close>

definition xml_response :: Response where
  "xml_response =
     \<lparr>RespStatusCode = 200, RequestURL = ''http://a/x.xml'',
      Body = \<lparr>content = ''<a>hi</a>'', read_error = None\<rparr>\<rparr>"

definition xml_server :: "string Client" where
  "xml_server =
     \<lparr>client_Get = (\<lambda>url. if url = ''http://a/x.xml'' then Inr xml_response
                           else Inl ''no such host''),
      json_Decode = (\<lambda>b v. if content b = ''<a>hi</a>''
                            then (v, Some (JSONSyntaxError ''invalid character''))
                            else (v, Some (DecodeError ''not modelled''))),
      xml_Decode = (\<lambda>b v. if content b = ''<a>hi</a>'' then (''hi'', None)
                           else (v, Some (DecodeError ''not modelled'')))\<rparr>"

text \<open>A server with the JSON document \<open>3\<close>, which is no string and no XML.\<close>

definition number_response :: Response where
  "number_response =
     \<lparr>RespStatusCode = 200, RequestURL = ''http://a/n.json'',
      Body = \<lparr>content = ''3'', read_error = None\<rparr>\<rparr>"

definition number_server :: "string Client" where
  "number_server =
     \<lparr>client_Get = (\<lambda>url. if url = ''http://a/n.json'' then Inr number_response
                           else Inl ''no such host''),
      json_Decode = (\<lambda>b v. (v, Some (DecodeError ''cannot unmarshal number''))),
      xml_Decode = (\<lambda>b v. (v, Some (DecodeError ''EOF'')))\<rparr>"

text \<open>A server that answers every URL with status 200.\<close>

definition ok_response :: Response where
  "ok_response = \<lparr>RespStatusCode = 200, RequestURL = ''http://a/'',
     Body = \<lparr>content = ''ok'', read_error = None\<rparr>\<rparr>"

text \<open>
  A server with two documents, a missing one, and two whose body breaks off after three
  bytes (the second with an error whose text is empty); other hosts do not resolve.
\<close>

definition empty_heap :: heap where
  "empty_heap = (\<lambda>a. \<lparr>Name = [], Data = []\<rparr>)"

definition page :: "int \<Rightarrow> string \<Rightarrow> bytes \<Rightarrow> string option \<Rightarrow> Response" where
  "page status url body err =
     \<lparr>RespStatusCode = status, RequestURL = url, Body = \<lparr>content = body, read_error = err\<rparr>\<rparr>"

definition file_server :: "string Client" where
  "file_server =
     \<lparr>client_Get = (\<lambda>url.
        if url = ''http://a/1'' then Inr (page 200 url ''one'' None)
        else if url = ''http://a/2'' then Inr (page 200 url ''two'' None)
        else if url = ''http://a/gone'' then Inr (page 404 url ''not found'' None)
        else if url = ''http://a/cut'' then Inr (page 200 url ''par'' (Some ''unexpected EOF''))
        else if url = ''http://a/mute'' then Inr (page 200 url ''par'' (Some []))
        else Inl ''no such host''),
      json_Decode = no_Decode, xml_Decode = no_Decode\<rparr>"

section \<open>Formatting of the status codes used below\<close>

lemma Sprintf_d_404: "Sprintf_d 404 = ''404''"
  by code_simp

lemma Sprintf_d_200: "Sprintf_d 200 = ''200''"
  by code_simp

section \<open>The single-request operations: results\<close>

text \<open>
  C1. The package-level \<open>XML(url, v)\<close> is documented to unmarshal XML like the method
  \<open>Client.XML\<close>, but its body calls \<open>client.JSON\<close>. On a server whose document is XML it
  runs the JSON decoder and returns that decoder's syntax error, wrapped, where the method
  \<open>Client.XML\<close> decodes the document.
\<close>

theorem XML_decodes_as_JSON:
  "XML xml_server ''http://a/x.xml'' [] = Client_JSON xml_server ''http://a/x.xml'' []
   \<and> XML xml_server ''http://a/x.xml'' [] =
       ([], Some (HttpclientError \<lparr>Message = ''JSON syntax error at http://a/x.xml'',
                                   StatusCode = 200, URL = ''http://a/x.xml''\<rparr>))
   \<and> Client_XML xml_server ''http://a/x.xml'' [] = (''hi'', None)"
  by (simp add: XML_def Client_JSON_def Client_XML_def Client_Get_def Client_err_def
      xml_server_def xml_response_def)

text \<open>
  C2, as the code has it. When the GET of \<open>url\<close> yields a response whose status is not 200,
  each of Bytes, String, Reader, JSON and XML (method and package-level function) returns no
  result and an \<open>*Error\<close> that carries the status of the response, the URL of the
  response's request (\<open>resp.Request.URL.String()\<close>) and the message
  \<open>Get <that URL> -> <status>\<close>. The URL is read from the response, not from the argument.
\<close>

theorem status_error_from_response:
  assumes "client_Get c url = Inr resp" and "RespStatusCode resp \<noteq> 200"
  defines "e \<equiv> HttpclientError
      \<lparr>Message = ''Get '' @ RequestURL resp @ '' -> '' @ Sprintf_d (RespStatusCode resp),
       StatusCode = RespStatusCode resp, URL = RequestURL resp\<rparr>"
  shows "Client_Bytes c url = ([], Some e) \<and> Client_String c url = ([], Some e)
       \<and> Client_Reader c url = (None, Some e)
       \<and> Client_JSON c url v = (v, Some e) \<and> Client_XML c url v = (v, Some e)
       \<and> Bytes c url = ([], Some e) \<and> String c url = ([], Some e)
       \<and> Reader c url = (None, Some e)
       \<and> JSON c url v = (v, Some e) \<and> XML c url v = (v, Some e)"
  using assms(1,2) unfolding e_def
  by (simp add: Client_Bytes_def Client_String_def Client_Reader_def Client_JSON_def
      Client_XML_def Bytes_def String_def Reader_def JSON_def XML_def Client_Get_def
      Client_err_def)

theorem status_error_from_response_witness:
  "client_Get redirecting_client ''http://a/old'' = Inr moved_response
   \<and> RespStatusCode moved_response \<noteq> 200
   \<and> Client_Bytes redirecting_client ''http://a/old'' =
       ([], Some (HttpclientError \<lparr>Message = ''Get http://a/new -> 404'', StatusCode = 404,
                                   URL = ''http://a/new''\<rparr>))
   \<and> XML redirecting_client ''http://a/old'' ''v'' =
       (''v'', Some (HttpclientError \<lparr>Message = ''Get http://a/new -> 404'', StatusCode = 404,
                                   URL = ''http://a/new''\<rparr>))"
proof -
  have g: "client_Get redirecting_client ''http://a/old'' = Inr moved_response"
    by (simp add: redirecting_client_def)
  have s: "RespStatusCode moved_response \<noteq> 200"
    by (simp add: moved_response_def)
  have f: "RespStatusCode moved_response = 404" "RequestURL moved_response = ''http://a/new''"
    by (simp_all add: moved_response_def)
  show ?thesis
    using status_error_from_response [OF g s, of "''v''"] g s
    by (simp add: f Sprintf_d_404)
qed

text \<open>
  C2 as stated fails: after a redirect the error names the URL that answered, not the URL
  that was asked for.
\<close>

theorem status_error_url_counterexample:
  "client_Get redirecting_client ''http://a/old'' = Inr moved_response
   \<and> RespStatusCode moved_response = 404
   \<and> Client_Bytes redirecting_client ''http://a/old'' \<noteq>
       ([], Some (HttpclientError \<lparr>Message = ''Get http://a/old -> 404'', StatusCode = 404,
                                   URL = ''http://a/old''\<rparr>))"
  by (simp add: Client_Bytes_def Client_Get_def Client_err_def redirecting_client_def
      moved_response_def)

text \<open>
  C3, as the code has it. When the response has status 200 and the JSON decoder returns a
  \<open>*json.SyntaxError\<close>, JSON returns an \<open>*Error\<close> whose message is
  \<open>JSON syntax error at <url>\<close>, with the URL of the call in it; the status 200 and the URL
  of the response's request are in the fields \<open>StatusCode\<close> and \<open>URL\<close>, and the message
  does not mention the status.
\<close>

theorem JSON_syntax_error_wrapped:
  assumes "client_Get c url = Inr resp" and "RespStatusCode resp = 200"
    and "json_Decode c (Body resp) v = (v', Some (JSONSyntaxError m))"
  shows "\<exists>e. Client_JSON c url v = (v', Some (HttpclientError e))
           \<and> JSON c url v = (v', Some (HttpclientError e))
           \<and> Message e = ''JSON syntax error at '' @ url
           \<and> sublist url (Message e)
           \<and> StatusCode e = 200 \<and> URL e = RequestURL resp"
proof -
  have "sublist url (''JSON syntax error at '' @ url)"
    by (rule sublist_append_leftI)
  with assms show ?thesis
    by (simp add: JSON_def Client_JSON_def Client_Get_def Client_err_def)
qed

theorem JSON_syntax_error_wrapped_witness:
  "client_Get xml_server ''http://a/x.xml'' = Inr xml_response
   \<and> RespStatusCode xml_response = 200
   \<and> json_Decode xml_server (Body xml_response) [] =
       ([], Some (JSONSyntaxError ''invalid character''))
   \<and> (\<exists>e. JSON xml_server ''http://a/x.xml'' [] = ([], Some (HttpclientError e))
          \<and> Message e = ''JSON syntax error at http://a/x.xml''
          \<and> StatusCode e = 200 \<and> URL e = ''http://a/x.xml'')"
proof -
  have g: "client_Get xml_server ''http://a/x.xml'' = Inr xml_response"
    by (simp add: xml_server_def)
  have s: "RespStatusCode xml_response = 200"
    by (simp add: xml_response_def)
  have d: "json_Decode xml_server (Body xml_response) [] =
       ([], Some (JSONSyntaxError ''invalid character''))"
    by (simp add: xml_server_def xml_response_def)
  have u: "RequestURL xml_response = ''http://a/x.xml''"
    by (simp add: xml_response_def)
  from JSON_syntax_error_wrapped [OF g s d] obtain e where
    "JSON xml_server ''http://a/x.xml'' [] = ([], Some (HttpclientError e))"
    "Message e = ''JSON syntax error at '' @ ''http://a/x.xml''"
    "StatusCode e = 200" "URL e = RequestURL xml_response"
    by blast
  with g s d u show ?thesis by auto
qed

text \<open>
  C3 as stated fails: the message of the wrapped error has the URL in it but not the status
  code 200 that was received.
\<close>

theorem JSON_syntax_error_message_counterexample:
  "client_Get xml_server ''http://a/x.xml'' = Inr xml_response
   \<and> RespStatusCode xml_response = 200
   \<and> json_Decode xml_server (Body xml_response) [] =
       ([], Some (JSONSyntaxError ''invalid character''))
   \<and> snd (JSON xml_server ''http://a/x.xml'' []) =
       Some (HttpclientError \<lparr>Message = ''JSON syntax error at http://a/x.xml'',
                              StatusCode = 200, URL = ''http://a/x.xml''\<rparr>)
   \<and> \<not> sublist (Sprintf_d 200) ''JSON syntax error at http://a/x.xml''"
proof -
  have "\<not> sublist ''200'' ''JSON syntax error at http://a/x.xml''"
    by code_simp
  then show ?thesis
    by (simp add: JSON_def Client_JSON_def Client_Get_def Client_err_def xml_server_def
        xml_response_def Sprintf_d_200)
qed

text \<open>
  C4. With a response of status 200, an error of the JSON decoder that is not a
  \<open>*json.SyntaxError\<close> is returned by \<open>Client.JSON\<close> as it is, and every error of the XML
  decoder is returned by \<open>Client.XML\<close> as it is; only a \<open>*json.SyntaxError\<close> is replaced
  by an \<open>*Error\<close>.
\<close>

theorem decode_errors_unwrapped:
  assumes "client_Get c url = Inr resp" and "RespStatusCode resp = 200"
  shows "(json_Decode c (Body resp) v = (v', Some e) \<longrightarrow> (\<forall>m. e \<noteq> JSONSyntaxError m) \<longrightarrow>
            Client_JSON c url v = (v', Some e) \<and> JSON c url v = (v', Some e))
       \<and> (xml_Decode c (Body resp) v = (v', Some e) \<longrightarrow> Client_XML c url v = (v', Some e))
       \<and> (json_Decode c (Body resp) v = (v', Some (JSONSyntaxError m)) \<longrightarrow>
            Client_JSON c url v = (v', Some (Client_err resp (''JSON syntax error at '' @ url))))"
  using assms
  by (auto simp: JSON_def Client_JSON_def Client_XML_def Client_Get_def split: go_error.splits)

theorem decode_errors_unwrapped_witness:
  "client_Get number_server ''http://a/n.json'' = Inr number_response
   \<and> RespStatusCode number_response = 200
   \<and> json_Decode number_server (Body number_response) [] =
       ([], Some (DecodeError ''cannot unmarshal number''))
   \<and> xml_Decode number_server (Body number_response) [] = ([], Some (DecodeError ''EOF''))
   \<and> Client_JSON number_server ''http://a/n.json'' [] =
       ([], Some (DecodeError ''cannot unmarshal number''))
   \<and> Client_XML number_server ''http://a/n.json'' [] = ([], Some (DecodeError ''EOF''))"
proof -
  have g: "client_Get number_server ''http://a/n.json'' = Inr number_response"
    by (simp add: number_server_def)
  have s: "RespStatusCode number_response = 200"
    by (simp add: number_response_def)
  have j: "json_Decode number_server (Body number_response) [] =
       ([], Some (DecodeError ''cannot unmarshal number''))"
    by (simp add: number_server_def)
  have x: "xml_Decode number_server (Body number_response) [] = ([], Some (DecodeError ''EOF''))"
    by (simp add: number_server_def)
  from decode_errors_unwrapped [OF g s, of "[]" "[]" "DecodeError ''cannot unmarshal number''"] j
  have 1: "Client_JSON number_server ''http://a/n.json'' [] =
       ([], Some (DecodeError ''cannot unmarshal number''))"
    by simp
  from decode_errors_unwrapped [OF g s, of "[]" "[]" "DecodeError ''EOF''"] x
  have 2: "Client_XML number_server ''http://a/n.json'' [] = ([], Some (DecodeError ''EOF''))"
    by simp
  from g s j x 1 2 show ?thesis by simp
qed

section \<open>The batch operation: steps and schedules\<close>

lemma run_task_length_tasks: "length (tasks (run_task c urls files i s)) = length (tasks s)"
  by (simp add: run_task_def Let_def split: sum.splits prod.splits option.splits)

lemma main_step_tasks: "tasks (main_step s) = tasks s"
  by (simp add: main_step_def split: main_state.splits list.splits option.splits)

lemma step_length_tasks: "length (tasks (step c urls files t s)) = length (tasks s)"
  by (simp add: step_def run_task_length_tasks main_step_tasks
      split: tid.splits task_state.splits)

lemma fold_step_length_tasks:
  "length (tasks (fold (step c urls files) sched s)) = length (tasks s)"
  by (induction sched arbitrary: s) (simp_all add: step_length_tasks)

lemma Client_Files_length_tasks:
  "length (tasks (Client_Files c urls files h sched)) = length files"
  by (simp add: Client_Files_def fold_step_length_tasks Files_init_def)

lemma run_task_gets:
  "i < length urls \<Longrightarrow> gets (run_task c urls files i s) = gets s @ [urls ! i]"
  by (simp add: run_task_def Let_def split: sum.splits prod.splits option.splits)

lemma step_beyond_files: "length files \<le> i \<Longrightarrow> step c urls files (Task i) s = s"
  by (simp add: step_def)

lemma first_step_of_task:
  "i < length files \<Longrightarrow>
   Client_Files c urls files h [Task i] = run_task c urls files i (Files_init files h)"
  by (simp add: Client_Files_def step_def Files_init_def)

lemma run_task_other:
  "j \<noteq> i \<Longrightarrow> tasks (run_task c urls files i s) ! j = tasks s ! j"
  by (simp add: run_task_def Let_def split: sum.splits prod.splits option.splits)

lemma finished_stable:
  assumes "tasks s ! j = Finished"
  shows "tasks (step c urls files t s) ! j = Finished"
proof (cases t)
  case Main
  with assms show ?thesis by (simp add: step_def main_step_tasks)
next
  case (Task i)
  show ?thesis
  proof (cases "j = i")
    case True
    with assms Task show ?thesis by (simp add: step_def)
  next
    case False
    with assms Task show ?thesis
      by (simp add: step_def run_task_other split: task_state.splits)
  qed
qed

lemma main_step_Returned: "main s = Returned r \<Longrightarrow> main_step s = s"
  by (simp add: main_step_def)

lemma run_task_main: "main (run_task c urls files i s) = main s"
  by (simp add: run_task_def Let_def split: sum.splits prod.splits option.splits)

lemma returned_stable:
  assumes "main s = Returned r"
  shows "main (step c urls files t s) = Returned r"
  using assms
  by (simp add: step_def main_step_Returned run_task_main split: tid.splits task_state.splits)

lemma returned_stable_fold:
  assumes "main s = Returned r"
  shows "main (fold (step c urls files) sched s) = Returned r"
  using assms by (induction sched arbitrary: s) (simp_all add: returned_stable)

subsection \<open>Panics\<close>

lemma run_task_no_crash:
  assumes "i < length files" "length files \<le> length urls" "\<forall>f\<in>set files. f \<noteq> None"
    "crashed s = None"
  shows "crashed (run_task c urls files i s) = None"
proof -
  from assms(1) have "files ! i \<in> set files" by (rule nth_mem)
  with assms(3) obtain a where "files ! i = Some a" by blast
  with assms(1,2,4) show ?thesis
    by (simp add: run_task_def Let_def split: sum.splits prod.splits option.splits)
qed

lemma main_step_crashed: "crashed (main_step s) = crashed s"
  by (simp add: main_step_def split: main_state.splits list.splits option.splits)

lemma step_no_crash:
  assumes "length files \<le> length urls" "\<forall>f\<in>set files. f \<noteq> None" "crashed s = None"
  shows "crashed (step c urls files t s) = None"
  using assms
  by (simp add: step_def main_step_crashed run_task_no_crash
      split: tid.splits task_state.splits)

lemma fold_step_no_crash:
  assumes "length files \<le> length urls" "\<forall>f\<in>set files. f \<noteq> None" "crashed s = None"
  shows "crashed (fold (step c urls files) sched s) = None"
  using assms(3)
  by (induction sched arbitrary: s) (simp_all add: step_no_crash [OF assms(1,2)])

lemma index_panic:
  assumes "length urls < length files"
  shows "crashed (Client_Files c urls files h [Task (length urls)]) = Some IndexOutOfRange"
  using assms by (simp add: first_step_of_task run_task_def)

lemma nil_panic:
  assumes "i < length files" "i < length urls" "files ! i = None"
    "client_Get c (urls ! i) = Inr resp" "RespStatusCode resp = 200"
  shows "crashed (Client_Files c urls files h [Task i]) = Some NilDereference"
  using assms
  by (simp add: first_step_of_task run_task_def Client_Get_def Let_def split: prod.splits)

subsection \<open>What is sent and returned\<close>

lemma Client_err_is_Error: "is_Error (Client_err resp m)"
  by (simp add: Client_err_def Let_def)

lemma Client_Get_reported: "Client_Get c u = Inl e \<Longrightarrow> is_TransportError e"
  by (auto simp: Client_Get_def split: sum.splits)

lemma run_task_cases:
  "run_task c urls files i s = s\<lparr>crashed := Some IndexOutOfRange\<rparr>
   \<or> run_task c urls files i s = s\<lparr>gets := gets s @ [urls ! i], crashed := Some NilDereference\<rparr>
   \<or> (\<exists>m hp. reported m \<and>
        run_task c urls files i s =
          s\<lparr>gets := gets s @ [urls ! i], heap := hp, tasks := (tasks s)[i := Sending m]\<rparr>)"
proof (cases "length urls \<le> i")
  case True
  then show ?thesis by (simp add: run_task_def)
next
  case False
  show ?thesis
  proof (cases "Client_Get c (urls ! i)")
    case (Inl e)
    then have "reported (Some e)" by (simp add: reported_def Client_Get_reported)
    moreover from False Inl have "run_task c urls files i s =
        s\<lparr>gets := gets s @ [urls ! i], heap := heap s, tasks := (tasks s)[i := Sending (Some e)]\<rparr>"
      by (simp add: run_task_def)
    ultimately show ?thesis by blast
  next
    case (Inr resp)
    have rep: "reported (Some (Client_err resp m))" for m
      by (simp add: reported_def Client_err_is_Error)
    show ?thesis
    proof (cases "RespStatusCode resp = 200")
      case ne: False
      with False Inr have "run_task c urls files i s =
        s\<lparr>gets := gets s @ [urls ! i], heap := heap s,
          tasks := (tasks s)[i := Sending (Some (Client_err resp []))]\<rparr>"
        by (simp add: run_task_def)
      with rep show ?thesis by blast
    next
      case True
      show ?thesis
      proof (cases "files ! i")
        case None
        with False Inr True show ?thesis
          by (simp add: run_task_def Let_def split: prod.splits)
      next
        case (Some a)
        let ?hp = "(heap s)(a := (heap s a)\<lparr>Data := content (Body resp)\<rparr>)"
        show ?thesis
        proof (cases "read_error (Body resp)")
          case None
          with False Inr True Some have "run_task c urls files i s =
            s\<lparr>gets := gets s @ [urls ! i], heap := ?hp, tasks := (tasks s)[i := Sending None]\<rparr>"
            by (simp add: run_task_def ReadAll_def)
          moreover have "reported None" by (simp add: reported_def)
          ultimately show ?thesis by blast
        next
          case (Some m)
          with False Inr True \<open>files ! i = Some a\<close> have "run_task c urls files i s =
            s\<lparr>gets := gets s @ [urls ! i], heap := ?hp,
              tasks := (tasks s)[i := Sending (Some (Client_err resp m))]\<rparr>"
            by (simp add: run_task_def ReadAll_def)
          with rep show ?thesis by blast
        qed
      qed
    qed
  qed
qed

lemma reports_update:
  assumes "\<forall>t\<in>set ts. case t of Sending m \<Rightarrow> reported m | _ \<Rightarrow> True"
    and "case x of Sending m \<Rightarrow> reported m | _ \<Rightarrow> True"
  shows "\<forall>t\<in>set (ts[i := x]). case t of Sending m \<Rightarrow> reported m | _ \<Rightarrow> True"
proof
  fix t assume "t \<in> set (ts[i := x])"
  then have "t \<in> insert x (set ts)" using set_update_subset_insert by fastforce
  with assms show "case t of Sending m \<Rightarrow> reported m | _ \<Rightarrow> True" by auto
qed

lemma reports_run_task:
  assumes "reports_inv s"
  shows "reports_inv (run_task c urls files i s)"
proof -
  from run_task_cases [of c urls files i s] show ?thesis
  proof (elim disjE exE conjE)
    assume "run_task c urls files i s = s\<lparr>crashed := Some IndexOutOfRange\<rparr>"
    with assms show ?thesis by (simp add: reports_inv_def)
  next
    assume "run_task c urls files i s =
      s\<lparr>gets := gets s @ [urls ! i], crashed := Some NilDereference\<rparr>"
    with assms show ?thesis by (simp add: reports_inv_def)
  next
    fix m hp
    assume m: "reported m" and run: "run_task c urls files i s =
      s\<lparr>gets := gets s @ [urls ! i], heap := hp, tasks := (tasks s)[i := Sending m]\<rparr>"
    from assms have "\<forall>t\<in>set (tasks s). case t of Sending m \<Rightarrow> reported m | _ \<Rightarrow> True"
      by (simp add: reports_inv_def)
    from reports_update [OF this, of "Sending m" i] m
    have "\<forall>t\<in>set ((tasks s)[i := Sending m]). case t of Sending m \<Rightarrow> reported m | _ \<Rightarrow> True"
      by simp
    with assms run show ?thesis by (simp add: reports_inv_def)
  qed
qed

lemma reports_main_step:
  assumes "reports_inv s"
  shows "reports_inv (main_step s)"
proof (cases "main s")
  case (Returned r)
  with assms show ?thesis by (simp add: main_step_def)
next
  case (Draining k)
  show ?thesis
  proof (cases "chan s")
    case Nil
    with assms Draining show ?thesis
      by (simp add: main_step_def reports_inv_def reported_def)
  next
    case (Cons m ms)
    with assms have "reported m" "\<forall>m\<in>set ms. reported m" by (simp_all add: reports_inv_def)
    with assms Draining Cons show ?thesis
      by (cases m) (simp_all add: main_step_def reports_inv_def reported_def)
  qed
qed

lemma reports_step:
  assumes "reports_inv s"
  shows "reports_inv (step c urls files t s)"
proof (cases t)
  case Main
  with assms reports_main_step [OF assms] show ?thesis by (simp add: step_def)
next
  case (Task i)
  show ?thesis
  proof (cases "crashed s = None \<and> i < length files \<and> i < length (tasks s)")
    case False
    with assms Task show ?thesis by (auto simp: step_def)
  next
    case True
    show ?thesis
    proof (cases "tasks s ! i")
      case Launched
      with Task True reports_run_task [OF assms, of c urls files i] show ?thesis
        by (simp add: step_def)
    next
      case (Sending m)
      from True have "tasks s ! i \<in> set (tasks s)" by simp
      with assms Sending have m: "reported m" by (auto simp: reports_inv_def)
      from assms have "\<forall>t\<in>set (tasks s). case t of Sending m \<Rightarrow> reported m | _ \<Rightarrow> True"
        by (simp add: reports_inv_def)
      from reports_update [OF this, of Finished i]
      have "\<forall>t\<in>set ((tasks s)[i := Finished]). case t of Sending m \<Rightarrow> reported m | _ \<Rightarrow> True"
        by simp
      with assms m Task True Sending show ?thesis
        by (simp add: step_def reports_inv_def)
    next
      case Finished
      with assms Task True show ?thesis by (simp add: step_def)
    qed
  qed
qed

lemma reports_reachable: "reports_inv (Client_Files c urls files h sched)"
proof -
  have "reports_inv s \<Longrightarrow> reports_inv (fold (step c urls files) sched s)" for s
    by (induction sched arbitrary: s) (simp_all add: reports_step)
  moreover have "reports_inv (Files_init files h)"
    by (simp add: reports_inv_def Files_init_def)
  ultimately show ?thesis by (simp add: Client_Files_def)
qed

lemma Files_error_reported:
  "main (Client_Files c urls files h sched) = Returned (Some e) \<Longrightarrow>
   is_Error e \<or> is_TransportError e"
  using reports_reachable [of c urls files h sched]
  by (simp add: reports_inv_def reported_def)

subsection \<open>A body that cannot be read\<close>

lemma run_task_read_error:
  assumes "i < length urls" and "files ! i = Some a"
    and "client_Get c (urls ! i) = Inr resp" and "RespStatusCode resp = 200"
    and "read_error (Body resp) = Some m"
  shows "run_task c urls files i s =
           s\<lparr>gets := gets s @ [urls ! i],
             heap := (heap s)(a := (heap s a)\<lparr>Data := content (Body resp)\<rparr>),
             tasks := (tasks s)[i := Sending (Some (Client_err resp m))]\<rparr>"
  using assms by (simp add: run_task_def Client_Get_def ReadAll_def)

lemma step_other_task:
  assumes "j \<noteq> i"
  shows "tasks (step c urls files (Task j) s) ! i = tasks s ! i"
  using assms
  by (simp add: step_def run_task_other split: task_state.splits)

lemma report_step:
  assumes "i < length urls" and "files ! i = Some a"
    and "client_Get c (urls ! i) = Inr resp" and "RespStatusCode resp = 200"
    and "read_error (Body resp) = Some m"
    and inv: "\<forall>r. tasks s ! i = Sending r \<longrightarrow> r = Some (Client_err resp m)"
  shows "\<forall>r. tasks (step c urls files t s) ! i = Sending r \<longrightarrow> r = Some (Client_err resp m)"
proof (cases t)
  case Main
  with inv show ?thesis by (simp add: step_def main_step_tasks)
next
  case (Task j)
  show ?thesis
  proof (cases "j = i")
    case False
    with inv Task show ?thesis by (simp add: step_other_task)
  next
    case True
    show ?thesis
    proof (cases "crashed s = None \<and> i < length files \<and> i < length (tasks s)")
      case False
      with inv Task True show ?thesis by (auto simp: step_def)
    next
      case ok: True
      show ?thesis
      proof (cases "tasks s ! i")
        case Launched
        with Task True ok run_task_read_error [OF assms(1-5), of s] show ?thesis
          by (simp add: step_def)
      next
        case (Sending r)
        with Task True ok show ?thesis by (simp add: step_def)
      next
        case Finished
        with Task True ok show ?thesis by (simp add: step_def)
      qed
    qed
  qed
qed

lemma report_reachable:
  assumes "i < length urls" and "files ! i = Some a"
    and "client_Get c (urls ! i) = Inr resp" and "RespStatusCode resp = 200"
    and "read_error (Body resp) = Some m" and "i < length files"
  shows "\<forall>r. tasks (Client_Files c urls files h sched) ! i = Sending r \<longrightarrow>
           r = Some (Client_err resp m)"
proof -
  have "(\<forall>r. tasks s ! i = Sending r \<longrightarrow> r = Some (Client_err resp m)) \<Longrightarrow>
      (\<forall>r. tasks (fold (step c urls files) sched s) ! i = Sending r \<longrightarrow>
         r = Some (Client_err resp m))" for s
  proof (induction sched arbitrary: s)
    case Nil
    then show ?case by simp
  next
    case (Cons t sched)
    from report_step [OF assms(1-5) Cons.prems, of t]
    have "\<forall>r. tasks (step c urls files t s) ! i = Sending r \<longrightarrow> r = Some (Client_err resp m)" .
    from Cons.IH [OF this] show ?case by simp
  qed
  moreover have "\<forall>r. tasks (Files_init files h) ! i = Sending r \<longrightarrow> r = Some (Client_err resp m)"
    using assms(6) by (simp add: Files_init_def)
  ultimately show ?thesis by (simp add: Client_Files_def)
qed

subsection \<open>The GETs that are issued\<close>

lemma finite_started: "finite (started files s)"
  by (simp add: started_def)

lemma run_task_sends:
  assumes "i < length files" "length files \<le> length urls" "\<forall>f\<in>set files. f \<noteq> None"
    "crashed s = None"
  shows "\<exists>m hp. run_task c urls files i s =
          s\<lparr>gets := gets s @ [urls ! i], heap := hp, tasks := (tasks s)[i := Sending m]\<rparr>"
proof -
  have "crashed (run_task c urls files i s) = None"
    by (rule run_task_no_crash [OF assms])
  with run_task_cases [of c urls files i s] show ?thesis by auto
qed

lemma started_run:
  assumes "i < length files" "length (tasks s) = length files" "tasks s ! i = Launched"
  shows "started files (s\<lparr>gets := g, heap := hp, tasks := (tasks s)[i := Sending m]\<rparr>) =
         insert i (started files s)"
    and "i \<notin> started files s"
  using assms by (auto simp: started_def nth_list_update)

lemma started_send:
  assumes "i < length files" "length (tasks s) = length files" "tasks s ! i = Sending m"
  shows "started files (s\<lparr>tasks := (tasks s)[i := Finished], chan := ch\<rparr>) = started files s"
  using assms by (auto simp: started_def nth_list_update)

lemma gets_inv_step:
  assumes P: "length files \<le> length urls" "\<forall>f\<in>set files. f \<noteq> None"
    and inv: "gets_inv urls files s"
  shows "gets_inv urls files (step c urls files t s)"
proof (cases t)
  case Main
  have "started files (main_step s) = started files s"
    by (simp add: started_def main_step_tasks)
  moreover have "gets (main_step s) = gets s"
    by (simp add: main_step_def split: main_state.splits list.splits option.splits)
  ultimately show ?thesis using inv Main
    by (simp add: step_def gets_inv_def main_step_crashed main_step_tasks)
next
  case (Task i)
  from inv have cr: "crashed s = None" and len: "length (tasks s) = length files"
    and g: "mset (gets s) = image_mset ((!) urls) (mset_set (started files s))"
    by (simp_all add: gets_inv_def)
  show ?thesis
  proof (cases "i < length files")
    case False
    with inv Task show ?thesis by (simp add: step_def)
  next
    case True
    show ?thesis
    proof (cases "tasks s ! i")
      case Launched
      from run_task_sends [OF True P cr, of c] obtain m hp where
        run: "run_task c urls files i s =
          s\<lparr>gets := gets s @ [urls ! i], heap := hp, tasks := (tasks s)[i := Sending m]\<rparr>"
        by blast
      from started_run(1) [OF True len Launched, where g = "gets s @ [urls ! i]" and hp = hp and m = m]
        started_run(2) [OF True len Launched]
      have "mset_set (started files (run_task c urls files i s)) =
          add_mset i (mset_set (started files s))"
        by (simp add: run finite_started)
      with g cr len Task True Launched run show ?thesis
        by (simp add: step_def gets_inv_def)
    next
      case (Sending m)
      from started_send [OF True len Sending, where ch = "chan s @ [m]"] g cr len Task True Sending
      show ?thesis by (simp add: step_def gets_inv_def)
    next
      case Finished
      with inv Task True len cr show ?thesis by (simp add: step_def)
    qed
  qed
qed

lemma gets_inv_reachable:
  assumes P: "length files \<le> length urls" "\<forall>f\<in>set files. f \<noteq> None"
  shows "gets_inv urls files (Client_Files c urls files h sched)"
proof -
  have "gets_inv urls files s \<Longrightarrow> gets_inv urls files (fold (step c urls files) sched s)" for s
    by (induction sched arbitrary: s) (simp_all add: gets_inv_step [OF P])
  moreover have "started files (Files_init files h) = {}"
    by (auto simp: started_def Files_init_def)
  then have "gets_inv urls files (Files_init files h)"
    by (simp add: gets_inv_def) (simp add: Files_init_def)
  ultimately show ?thesis by (simp add: Client_Files_def)
qed

lemma two_steps_finish:
  assumes P: "length files \<le> length urls" "\<forall>f\<in>set files. f \<noteq> None"
    and cr: "crashed s = None" and len: "length (tasks s) = length files"
    and i: "i < length files"
  shows "tasks (step c urls files (Task i) (step c urls files (Task i) s)) ! i = Finished"
proof (cases "tasks s ! i")
  case Launched
  let ?s1 = "step c urls files (Task i) s"
  have cr1: "crashed ?s1 = None" by (rule step_no_crash [OF P cr])
  have len1: "length (tasks ?s1) = length files" by (simp add: step_length_tasks len)
  from run_task_sends [OF i P cr, of c] obtain m hp where
    "run_task c urls files i s =
       s\<lparr>gets := gets s @ [urls ! i], heap := hp, tasks := (tasks s)[i := Sending m]\<rparr>"
    by blast
  with Launched i len cr have "tasks ?s1 ! i = Sending m" by (simp add: step_def)
  with cr1 len1 i show ?thesis by (simp add: step_def)
next
  case (Sending m)
  with i len cr have "tasks (step c urls files (Task i) s) ! i = Finished"
    by (simp add: step_def)
  then show ?thesis by (rule finished_stable)
next
  case Finished
  then show ?thesis by (intro finished_stable)
qed

lemma tasks_run:
  assumes P: "length files \<le> length urls" "\<forall>f\<in>set files. f \<noteq> None"
  shows "crashed s = None \<Longrightarrow> length (tasks s) = length files \<Longrightarrow>
      \<forall>i\<in>set ns. i < length files \<Longrightarrow>
      \<forall>j. tasks s ! j = Finished \<or> j \<in> set ns \<longrightarrow>
        tasks (fold (step c urls files) (concat (map (\<lambda>i. [Task i, Task i]) ns)) s) ! j = Finished"
proof (induction ns arbitrary: s)
  case Nil
  then show ?case by simp
next
  case (Cons i ns)
  let ?s2 = "step c urls files (Task i) (step c urls files (Task i) s)"
  have cr2: "crashed ?s2 = None"
    by (intro step_no_crash [OF P] Cons.prems(1))
  have len2: "length (tasks ?s2) = length files"
    by (simp add: step_length_tasks Cons.prems(2))
  from Cons.prems(3) have i: "i < length files" and ns: "\<forall>i\<in>set ns. i < length files"
    by simp_all
  have fin: "tasks ?s2 ! i = Finished"
    by (rule two_steps_finish [OF P Cons.prems(1,2) i])
  have keep: "tasks ?s2 ! j = Finished" if "tasks s ! j = Finished" for j
    by (intro finished_stable that)
  from Cons.IH [OF cr2 len2 ns] have IH: "\<And>j. tasks ?s2 ! j = Finished \<or> j \<in> set ns \<Longrightarrow>
        tasks (fold (step c urls files) (concat (map (\<lambda>i. [Task i, Task i]) ns)) ?s2) ! j = Finished"
    by blast
  show ?case
  proof (intro allI impI)
    fix j assume "tasks s ! j = Finished \<or> j \<in> set (i # ns)"
    then have "tasks ?s2 ! j = Finished \<or> j \<in> set ns"
      using fin keep by auto
    from IH [OF this] show "tasks (fold (step c urls files)
        (concat (map (\<lambda>i. [Task i, Task i]) (i # ns))) s) ! j = Finished"
      by simp
  qed
qed

lemma main_steps_keep:
  "tasks (fold (step c urls files) (replicate n Main) s) = tasks s
   \<and> gets (fold (step c urls files) (replicate n Main) s) = gets s"
proof (induction n arbitrary: s)
  case 0
  then show ?case by simp
next
  case (Suc n)
  have "tasks (step c urls files Main s) = tasks s \<and> gets (step c urls files Main s) = gets s"
    by (simp add: step_def main_step_def split: main_state.splits list.splits option.splits)
  with Suc [of "step c urls files Main s"] show ?case by simp
qed

lemma image_nth_upt:
  assumes "n \<le> length xs"
  shows "image_mset ((!) xs) (mset_set {i. i < n}) = mset (take n xs)"
proof -
  have "{i. i < n} = {0..<n}" by auto
  then have "mset_set {i. i < n} = mset [0..<n]" by simp
  then have "image_mset ((!) xs) (mset_set {i. i < n}) = mset (map ((!) xs) [0..<n])"
    by simp
  also from assms have "map ((!) xs) [0..<n] = take n xs"
    by (simp add: list_eq_iff_nth_eq)
  finally show ?thesis .
qed

lemma gets_at_end:
  assumes P: "length files \<le> length urls" "\<forall>f\<in>set files. f \<noteq> None"
  shows "mset (gets (Client_Files c urls files h (sched @ run_to_end files))) =
         mset (take (length files) urls)"
proof -
  let ?f = "step c urls files"
  let ?s0 = "Client_Files c urls files h sched"
  let ?ts = "concat (map (\<lambda>i. [Task i, Task i]) [0..<length files])"
  let ?s1 = "fold ?f ?ts ?s0"
  let ?s2 = "fold ?f (replicate (Suc (length files)) Main) ?s1"
  have s2: "Client_Files c urls files h (sched @ run_to_end files) = ?s2"
    by (simp add: Client_Files_def run_to_end_def)
  have s1: "?s1 = Client_Files c urls files h (sched @ ?ts)"
    by (simp add: Client_Files_def)
  have inv0: "gets_inv urls files ?s0" by (rule gets_inv_reachable [OF P])
  have inv1: "gets_inv urls files ?s1" unfolding s1 by (rule gets_inv_reachable [OF P])
  from inv0 have cr0: "crashed ?s0 = None" and len0: "length (tasks ?s0) = length files"
    by (simp_all add: gets_inv_def)
  have "\<forall>j. tasks ?s0 ! j = Finished \<or> j \<in> set [0..<length files] \<longrightarrow> tasks ?s1 ! j = Finished"
    by (rule tasks_run [OF P cr0 len0]) simp
  then have "started files ?s1 = {i. i < length files}"
    by (auto simp: started_def)
  with inv1 have "mset (gets ?s1) = image_mset ((!) urls) (mset_set {i. i < length files})"
    by (simp add: gets_inv_def)
  also have "\<dots> = mset (take (length files) urls)"
    by (rule image_nth_upt [OF P(1)])
  finally have "mset (gets ?s1) = mset (take (length files) urls)" .
  moreover have "gets ?s2 = gets ?s1"
    using main_steps_keep [of c urls files "Suc (length files)" ?s1] by blast
  ultimately show ?thesis by (simp only: s2)
qed

subsection \<open>A batch in which every fetch succeeds\<close>

lemma run_task_ok:
  assumes "snd (Client_Bytes c (urls ! i)) = None" "i < length urls" "files ! i = Some a"
  shows "run_task c urls files i s =
           s\<lparr>gets := gets s @ [urls ! i],
             heap := (heap s)(a := (heap s a)\<lparr>Data := fst (Client_Bytes c (urls ! i))\<rparr>),
             tasks := (tasks s)[i := Sending None]\<rparr>"
  using assms
  by (auto simp: run_task_def Client_Bytes_def ReadAll_def Let_def
      split: sum.splits if_splits option.splits)

lemma filter_update_count:
  "i < length xs \<Longrightarrow>
   length (filter P (xs[i := x])) + (if P (xs ! i) then 1 else 0) =
   length (filter P xs) + (if P x then 1 else 0)"
proof (induction xs arbitrary: i)
  case Nil
  then show ?case by simp
next
  case (Cons y ys)
  show ?case
  proof (cases i)
    case 0
    then show ?thesis by simp
  next
    case (Suc j)
    with Cons.prems have "j < length ys" by simp
    from Cons.IH [OF this] Suc show ?thesis by simp
  qed
qed

lemma finished_count_le: "finished_count s \<le> length (tasks s)"
  by (simp add: finished_count_def)

lemma all_finished:
  assumes "finished_count s = length (tasks s)" "i < length (tasks s)"
  shows "tasks s ! i = Finished"
proof (rule ccontr)
  assume "tasks s ! i \<noteq> Finished"
  moreover from assms(2) have "tasks s ! i \<in> set (tasks s)" by (rule nth_mem)
  ultimately have "length (filter (\<lambda>t. t = Finished) (tasks s)) < length (tasks s)"
    by (rule length_filter_less [rotated])
  with assms(1) show False by (simp add: finished_count_def)
qed

lemma count_update_other:
  assumes "i < length ts" "ts ! i \<noteq> Finished" "x \<noteq> Finished"
  shows "length (filter (\<lambda>t. t = Finished) (ts[i := x])) = length (filter (\<lambda>t. t = Finished) ts)"
  using filter_update_count [OF assms(1), of "\<lambda>t. t = Finished" x] assms(2,3) by simp

lemma count_update_Finished:
  assumes "i < length ts" "ts ! i \<noteq> Finished"
  shows "length (filter (\<lambda>t. t = Finished) (ts[i := Finished])) =
         Suc (length (filter (\<lambda>t. t = Finished) ts))"
  using filter_update_count [OF assms(1), of "\<lambda>t. t = Finished" Finished] assms(2) by simp

lemma count_all_Finished:
  assumes "\<forall>j<length ts. ts ! j = Finished"
  shows "length (filter (\<lambda>t. t = Finished) ts) = length ts"
proof -
  from assms have "\<forall>t\<in>set ts. t = Finished" by (auto simp: in_set_conv_nth)
  then have "filter (\<lambda>t. t = Finished) ts = ts" by (simp add: filter_id_conv)
  then show ?thesis by simp
qed

lemma inv_init: "all_ok_inv c urls files (Files_init files h)"
  by (simp add: all_ok_inv_def Files_init_def finished_count_def)

lemma inv_main_step:
  assumes "all_ok_inv c urls files s"
  shows "all_ok_inv c urls files (main_step s)"
proof (cases "main s")
  case (Returned r)
  with assms show ?thesis by (simp add: main_step_def)
next
  case (Draining k)
  show ?thesis
  proof (cases k)
    case 0
    from assms Draining 0 have eq: "finished_count s = length (tasks s) + length (chan s)"
      by (simp add: all_ok_inv_def)
    with finished_count_le [of s] have "chan s = []" "finished_count s = length (tasks s)"
      by simp_all
    with assms Draining 0 show ?thesis
      by (simp add: main_step_def all_ok_inv_def finished_count_def fetched_def)
  next
    case (Suc k')
    show ?thesis
    proof (cases "chan s")
      case Nil
      with assms Draining Suc show ?thesis by (simp add: main_step_def)
    next
      case (Cons m ms)
      with assms have "m = None" by (simp add: all_ok_inv_def)
      with assms Draining Suc Cons show ?thesis
        by (simp add: main_step_def all_ok_inv_def finished_count_def fetched_def)
    qed
  qed
qed

lemma inv_run_task:
  assumes ok: "batch_ok c urls files" and inv: "all_ok_inv c urls files s"
    and i: "i < length files" and st: "tasks s ! i = Launched"
  shows "all_ok_inv c urls files (run_task c urls files i s)"
proof -
  from ok i have iu: "i < length urls" by (simp add: batch_ok_def)
  from ok iu have b: "snd (Client_Bytes c (urls ! i)) = None" by (simp add: batch_ok_def)
  from ok i obtain a where a: "files ! i = Some a"
    by (metis batch_ok_def nth_mem option.exhaust)
  let ?d = "fst (Client_Bytes c (urls ! i))"
  let ?s' = "s\<lparr>gets := gets s @ [urls ! i],
                heap := (heap s)(a := (heap s a)\<lparr>Data := ?d\<rparr>),
                tasks := (tasks s)[i := Sending None]\<rparr>"
  have run: "run_task c urls files i s = ?s'"
    by (rule run_task_ok [OF b iu a])
  from inv have len: "length (tasks s) = length files" by (simp add: all_ok_inv_def)
  have cnt: "finished_count ?s' = finished_count s"
    using i len st by (simp add: finished_count_def count_update_other)
  have slots: "tasks ?s' ! j = Launched
      \<or> ((tasks ?s' ! j = Sending None \<or> tasks ?s' ! j = Finished) \<and> fetched c urls files (heap ?s') j)"
    if j: "j < length files" for j
  proof (cases "j = i")
    case True
    with i len a show ?thesis by (simp add: fetched_def)
  next
    case False
    from inv j have old: "tasks s ! j = Launched
      \<or> ((tasks s ! j = Sending None \<or> tasks s ! j = Finished) \<and> fetched c urls files (heap s) j)"
      by (simp add: all_ok_inv_def)
    from ok have "distinct files" by (simp add: batch_ok_def)
    with i j False have "files ! j \<noteq> files ! i" by (simp add: nth_eq_iff_index_eq)
    with a have "fetched c urls files (heap ?s') j = fetched c urls files (heap s) j"
      by (simp add: fetched_def split: option.splits)
    with old False show ?thesis by simp
  qed
  from inv have rest: "crashed s = None" "\<forall>m\<in>set (chan s). m = None"
    "case main s of
       Draining k \<Rightarrow> k \<le> length files \<and> finished_count s + k = length files + length (chan s)
     | Returned r \<Rightarrow> r = None \<and> chan s = [] \<and> finished_count s = length files"
    by (simp_all add: all_ok_inv_def)
  have "all_ok_inv c urls files ?s'"
    unfolding all_ok_inv_def
  proof (intro conjI allI impI)
    show "crashed ?s' = None" using rest(1) by simp
    show "length (tasks ?s') = length files" using len by simp
    show "\<forall>m\<in>set (chan ?s'). m = None" using rest(2) by simp
    show "case main ?s' of
       Draining k \<Rightarrow> k \<le> length files \<and> finished_count ?s' + k = length files + length (chan ?s')
     | Returned r \<Rightarrow> r = None \<and> chan ?s' = [] \<and> finished_count ?s' = length files"
      using rest(3) cnt by (simp split: main_state.splits)
  next
    fix j assume "j < length files"
    then show "tasks ?s' ! j = Launched
      \<or> ((tasks ?s' ! j = Sending None \<or> tasks ?s' ! j = Finished) \<and> fetched c urls files (heap ?s') j)"
      by (rule slots)
  qed
  with run show ?thesis by simp
qed

lemma inv_send:
  assumes inv: "all_ok_inv c urls files s"
    and i: "i < length files" and st: "tasks s ! i = Sending m"
  shows "m = None"
    and "all_ok_inv c urls files (s\<lparr>tasks := (tasks s)[i := Finished], chan := chan s @ [m]\<rparr>)"
proof -
  let ?s' = "s\<lparr>tasks := (tasks s)[i := Finished], chan := chan s @ [m]\<rparr>"
  from inv have len: "length (tasks s) = length files" by (simp add: all_ok_inv_def)
  from inv i st have m: "m = None" and f: "fetched c urls files (heap s) i"
    by (auto simp: all_ok_inv_def)
  have cnt: "finished_count ?s' = Suc (finished_count s)"
    using i len st by (simp add: finished_count_def count_update_Finished)
  obtain k where k: "main s = Draining k"
  proof (cases "main s")
    case (Draining k)
    then show ?thesis by (rule that)
  next
    case (Returned r)
    with inv len have "finished_count s = length (tasks s)" by (simp add: all_ok_inv_def)
    from all_finished [OF this] i len st show ?thesis by simp
  qed
  have slots: "tasks ?s' ! j = Launched
      \<or> ((tasks ?s' ! j = Sending None \<or> tasks ?s' ! j = Finished) \<and> fetched c urls files (heap ?s') j)"
    if j: "j < length files" for j
  proof (cases "j = i")
    case True
    with i len f show ?thesis by (simp add: fetched_def)
  next
    case False
    from inv j have "tasks s ! j = Launched
      \<or> ((tasks s ! j = Sending None \<or> tasks s ! j = Finished) \<and> fetched c urls files (heap s) j)"
      by (simp add: all_ok_inv_def)
    with False show ?thesis by (simp add: fetched_def)
  qed
  from inv k have rest: "crashed s = None" "\<forall>m\<in>set (chan s). m = None"
    "k \<le> length files \<and> finished_count s + k = length files + length (chan s)"
    by (simp_all add: all_ok_inv_def)
  have "all_ok_inv c urls files ?s'"
    unfolding all_ok_inv_def
  proof (intro conjI allI impI)
    show "crashed ?s' = None" using rest(1) by simp
    show "length (tasks ?s') = length files" using len by simp
    show "\<forall>m\<in>set (chan ?s'). m = None" using rest(2) m by simp
    show "case main ?s' of
       Draining k \<Rightarrow> k \<le> length files \<and> finished_count ?s' + k = length files + length (chan ?s')
     | Returned r \<Rightarrow> r = None \<and> chan ?s' = [] \<and> finished_count ?s' = length files"
      using rest(3) cnt k by simp
  next
    fix j assume "j < length files"
    then show "tasks ?s' ! j = Launched
      \<or> ((tasks ?s' ! j = Sending None \<or> tasks ?s' ! j = Finished) \<and> fetched c urls files (heap ?s') j)"
      by (rule slots)
  qed
  then show "all_ok_inv c urls files (s\<lparr>tasks := (tasks s)[i := Finished], chan := chan s @ [m]\<rparr>)" .
  show "m = None" by (rule m)
qed

lemma inv_step:
  assumes ok: "batch_ok c urls files" and inv: "all_ok_inv c urls files s"
  shows "all_ok_inv c urls files (step c urls files t s)"
proof (cases t)
  case Main
  with inv inv_main_step [OF inv] show ?thesis by (simp add: step_def)
next
  case (Task i)
  show ?thesis
  proof (cases "i < length files \<and> i < length (tasks s)")
    case False
    with inv Task show ?thesis by (auto simp: step_def)
  next
    case True
    then have i: "i < length files" by simp
    show ?thesis
    proof (cases "tasks s ! i")
      case Launched
      from inv_run_task [OF ok inv i Launched] inv Task True Launched show ?thesis
        by (simp add: step_def)
    next
      case (Sending m)
      from inv have "crashed s = None" by (simp add: all_ok_inv_def)
      with Task True Sending have "step c urls files t s =
          s\<lparr>tasks := (tasks s)[i := Finished], chan := chan s @ [m]\<rparr>"
        by (simp add: step_def)
      with inv_send(2) [OF inv i Sending] show ?thesis by simp
    next
      case Finished
      with inv Task True show ?thesis by (simp add: step_def)
    qed
  qed
qed

lemma inv_fold:
  assumes ok: "batch_ok c urls files" and inv: "all_ok_inv c urls files s"
  shows "all_ok_inv c urls files (fold (step c urls files) sched s)"
  using inv by (induction sched arbitrary: s) (simp_all add: inv_step [OF ok])

lemma inv_reachable:
  assumes "batch_ok c urls files"
  shows "all_ok_inv c urls files (Client_Files c urls files h sched)"
  unfolding Client_Files_def by (rule inv_fold [OF assms inv_init])



lemma drain:
  assumes ok: "batch_ok c urls files"
  shows "all_ok_inv c urls files s \<Longrightarrow> finished_count s = length files \<Longrightarrow>
      main s = Draining k \<Longrightarrow> k < n \<Longrightarrow>
      main (fold (step c urls files) (replicate n Main) s) = Returned None"
proof (induction n arbitrary: s k)
  case 0
  then show ?case by simp
next
  case (Suc n)
  from Suc.prems(1) have cr: "crashed s = None" by (simp add: all_ok_inv_def)
  let ?s1 = "step c urls files Main s"
  have s1: "?s1 = main_step s" using cr by (simp add: step_def)
  have inv1: "all_ok_inv c urls files ?s1" by (rule inv_step [OF ok Suc.prems(1)])
  show ?case
  proof (cases k)
    case 0
    with Suc.prems(3) s1 have "main ?s1 = Returned None" by (simp add: main_step_def)
    then have "main (fold (step c urls files) (replicate n Main) ?s1) = Returned None"
      by (rule returned_stable_fold)
    then show ?thesis by simp
  next
    case (Suc k')
    from Suc.prems(1,2,3) have "length (chan s) = k" "\<forall>m\<in>set (chan s). m = None"
      by (simp_all add: all_ok_inv_def)
    with Suc obtain ms where ch: "chan s = None # ms"
      by (cases "chan s") auto
    with Suc.prems(3) Suc s1 have m1: "main ?s1 = Draining k'"
      by (simp add: main_step_def)
    have f1: "finished_count ?s1 = length files"
      using Suc.prems(2) s1 by (simp add: finished_count_def main_step_tasks)
    from Suc.prems(4) Suc have "k' < n" by simp
    from Suc.IH [OF inv1 f1 m1 this] show ?thesis by simp
  qed
qed

subsection \<open>An empty slice of files\<close>

lemma no_files_returned:
  assumes "tasks s = []" "main s = Returned None" "crashed s = None"
  shows "fold (step c urls []) sched s = s"
  using assms
  by (induction sched arbitrary: s) (simp_all add: step_def main_step_def split: tid.splits)

lemma no_files_fold:
  "fold (step c urls []) sched (Files_init [] h) =
     (Files_init [] h)\<lparr>main := (if Main \<in> set sched then Returned None else Draining 0)\<rparr>"
proof (induction sched)
  case Nil
  then show ?case by (simp add: Files_init_def)
next
  case (Cons t sched)
  show ?case
  proof (cases t)
    case Main
    have "step c urls [] Main (Files_init [] h) = (Files_init [] h)\<lparr>main := Returned None\<rparr>"
      by (simp add: step_def main_step_def Files_init_def)
    moreover have "fold (step c urls []) sched ((Files_init [] h)\<lparr>main := Returned None\<rparr>) =
        (Files_init [] h)\<lparr>main := Returned None\<rparr>"
      by (rule no_files_returned) (simp_all add: Files_init_def)
    ultimately show ?thesis using Main by simp
  next
    case (Task i)
    have "step c urls [] (Task i) (Files_init [] h) = Files_init [] h"
      by (simp add: step_def)
    with Cons Task show ?thesis by simp
  qed
qed

subsection \<open>The file server\<close>

lemma file_server_1: "Client_Bytes file_server ''http://a/1'' = (''one'', None)"
  by (simp add: Client_Bytes_def Client_Get_def file_server_def page_def ReadAll_def)

lemma file_server_2: "Client_Bytes file_server ''http://a/2'' = (''two'', None)"
  by (simp add: Client_Bytes_def Client_Get_def file_server_def page_def ReadAll_def)

lemma file_server_cut:
  "client_Get file_server ''http://a/cut'' =
     Inr (page 200 ''http://a/cut'' ''par'' (Some ''unexpected EOF''))"
  by (simp add: file_server_def)

section \<open>The batch operation: results\<close>

text \<open>
  C5, as the code has it. \<open>Files\<close> allocates nothing: the files are the caller's slice. It
  starts one goroutine per index of \<open>files\<close> (not of \<open>urls\<close>): there are \<open>len(files)\<close>
  goroutines from the start to the end of the call under every schedule, none for an index
  beyond \<open>files\<close>, and the goroutine of index \<open>i\<close> issues the GET of \<open>urls[i]\<close>: when
  the call cannot panic, a schedule run to its end has issued one GET for each of the first
  \<open>len(files)\<close> URLs and no other. With as many files as URLs these are the \<open>N\<close>
  goroutines of the claim.
\<close>

theorem Files_one_task_per_file:
  "tasks (Client_Files c urls files h []) = replicate (length files) Launched
   \<and> heap (Client_Files c urls files h []) = h
   \<and> length (tasks (Client_Files c urls files h sched)) = length files
   \<and> (length files \<le> i \<longrightarrow> step c urls files (Task i) s = s)
   \<and> (i < length files \<and> i < length urls \<longrightarrow> gets (Client_Files c urls files h [Task i]) = [urls ! i])
   \<and> (length files \<le> length urls \<and> (\<forall>f\<in>set files. f \<noteq> None) \<longrightarrow>
        mset (gets (Client_Files c urls files h (sched @ run_to_end files))) =
        mset (take (length files) urls))"
proof -
  have 1: "tasks (Client_Files c urls files h []) = replicate (length files) Launched"
    and 2: "heap (Client_Files c urls files h []) = h"
    by (simp_all add: Client_Files_def Files_init_def)
  have 3: "length (tasks (Client_Files c urls files h sched)) = length files"
    by (rule Client_Files_length_tasks)
  have 4: "length files \<le> i \<longrightarrow> step c urls files (Task i) s = s"
    by (simp add: step_beyond_files)
  have 5: "i < length files \<and> i < length urls \<longrightarrow>
        gets (Client_Files c urls files h [Task i]) = [urls ! i]"
    by (simp add: first_step_of_task run_task_gets) (simp add: Files_init_def)
  have 6: "length files \<le> length urls \<and> (\<forall>f\<in>set files. f \<noteq> None) \<longrightarrow>
        mset (gets (Client_Files c urls files h (sched @ run_to_end files))) =
        mset (take (length files) urls)"
    using gets_at_end [of files urls c h sched] by blast
  from 1 2 3 4 5 6 show ?thesis by (intro conjI)
qed

theorem Files_one_task_per_file_witness:
  "tasks (Client_Files file_server [''http://a/1'', ''http://a/2''] [Some 0] empty_heap []) = [Launched]
   \<and> step file_server [''http://a/1'', ''http://a/2''] [Some 0] (Task 1)
        (Files_init [Some 0] empty_heap) = Files_init [Some 0] empty_heap
   \<and> gets (Client_Files file_server [''http://a/1'', ''http://a/2''] [Some 0] empty_heap [Task 0])
       = [''http://a/1'']
   \<and> mset (gets (Client_Files file_server [''http://a/1'', ''http://a/2''] [Some 0] empty_heap
        ([Main, Task 0] @ run_to_end [Some 0]))) = mset [''http://a/1'']"
  using Files_one_task_per_file [of file_server "[''http://a/1'', ''http://a/2'']" "[Some 0]"
      empty_heap "[]" 1 "Files_init [Some 0] empty_heap"]
    Files_one_task_per_file [of file_server "[''http://a/1'', ''http://a/2'']" "[Some 0]"
      empty_heap "[Main, Task 0]" 0 "Files_init [Some 0] empty_heap"]
  by simp

text \<open>
  C5 as stated fails on the call of the repository's own example: three URLs and a nil
  slice of files start no goroutine and fetch nothing, and the call returns \<open>nil\<close>.
\<close>

theorem Files_tasks_counterexample:
  "length [''http://www.golang.org'', ''http://www.clojure.org'', ''http://www.erlang.org''] = 3
   \<and> tasks (Client_Files file_server
        [''http://www.golang.org'', ''http://www.clojure.org'', ''http://www.erlang.org''] []
        empty_heap []) = []
   \<and> gets (Client_Files file_server
        [''http://www.golang.org'', ''http://www.clojure.org'', ''http://www.erlang.org''] []
        empty_heap [Task 0, Task 1, Task 2, Main]) = []
   \<and> main (Client_Files file_server
        [''http://www.golang.org'', ''http://www.clojure.org'', ''http://www.erlang.org''] []
        empty_heap [Task 0, Task 1, Task 2, Main]) = Returned None"
  by (simp add: Client_Files_def Files_init_def step_def main_step_def)

text \<open>
  C6, as the code has it. With an empty slice of files (whatever the URLs, an empty list
  among them) \<open>Files\<close> and \<open>Download\<close> start no goroutine, issue no GET, leave the heap as
  it is, and return \<open>nil\<close> with the first step of the caller.
\<close>

theorem Files_no_files:
  "Client_Files c urls [] h sched =
     \<lparr>tasks = [], heap = h, chan = [],
      main = (if Main \<in> set sched then Returned None else Draining 0),
      gets = [], crashed = None\<rparr>
   \<and> Client_Download c urls [] h sched = Client_Files c urls [] h sched
   \<and> Files c urls [] h sched = Client_Files c urls [] h sched
   \<and> Download c urls [] h sched = Client_Files c urls [] h sched"
  by (simp add: Client_Files_def no_files_fold Client_Download_def Files_def Download_def)
     (simp add: Files_init_def)

theorem Files_no_files_witness:
  "main (Client_Files file_server [] [] empty_heap [Main]) = Returned None
   \<and> gets (Download file_server [] [] empty_heap [Main]) = []"
  using Files_no_files [of file_server "[]" empty_heap "[Main]"] by simp

text \<open>
  C6 as stated fails: with no URL and one file a goroutine is started, and it panics on
  \<open>urls[0]\<close>; the call never returns.
\<close>

theorem Files_empty_urls_counterexample:
  "tasks (Files file_server [] [Some 0] empty_heap []) = [Launched]
   \<and> crashed (Files file_server [] [Some 0] empty_heap [Task 0]) = Some IndexOutOfRange
   \<and> main (Files file_server [] [Some 0] empty_heap [Task 0, Task 0, Main, Main]) = Draining 1"
  by (simp add: Files_def Client_Files_def Files_init_def step_def run_task_def main_step_def)

text \<open>
  C7, as the code has it. When the caller hands over as many files as URLs, through non-nil
  and pairwise different pointers, and \<open>Bytes\<close> succeeds on every URL, then every schedule,
  run to its end, makes \<open>Files\<close> return \<open>nil\<close>; and whenever \<open>Files\<close> has returned, it
  has returned \<open>nil\<close> and the file of each index \<open>i\<close> holds the bytes that \<open>Bytes(urls[i])\<close>
  returns.
\<close>

theorem Files_all_succeed:
  assumes "length files = length urls" and "distinct files" and "\<forall>f\<in>set files. f \<noteq> None"
    and "\<forall>u\<in>set urls. snd (Client_Bytes c u) = None"
  shows "main (Client_Files c urls files h (sched @ run_to_end files)) = Returned None
       \<and> (main (Client_Files c urls files h sched) = Returned r \<longrightarrow>
            r = None \<and>
            (\<forall>i<length urls. \<exists>a. files ! i = Some a \<and>
               Client_Bytes c (urls ! i) = (Data (heap (Client_Files c urls files h sched) a), None)))"
proof
  from assms have ok: "batch_ok c urls files" by (simp add: batch_ok_def)
  let ?f = "step c urls files"
  let ?s0 = "Client_Files c urls files h sched"
  have inv0: "all_ok_inv c urls files ?s0" by (rule inv_reachable [OF ok])
  let ?ts = "concat (map (\<lambda>i. [Task i, Task i]) [0..<length files])"
  let ?s1 = "fold ?f ?ts ?s0"
  have inv1: "all_ok_inv c urls files ?s1" by (rule inv_fold [OF ok inv0])
  then have len1: "length (tasks ?s1) = length files" by (simp add: all_ok_inv_def)
  from assms(1) have le: "length files \<le> length urls" by simp
  from inv0 have cr0: "crashed ?s0 = None" and len0: "length (tasks ?s0) = length files"
    by (simp_all add: all_ok_inv_def)
  have "\<forall>j. tasks ?s0 ! j = Finished \<or> j \<in> set [0..<length files] \<longrightarrow> tasks ?s1 ! j = Finished"
    by (rule tasks_run [OF le assms(3) cr0 len0]) simp
  then have "\<forall>j<length (tasks ?s1). tasks ?s1 ! j = Finished"
    using len1 by simp
  then have f1: "finished_count ?s1 = length files"
    unfolding finished_count_def using len1 by (simp add: count_all_Finished)
  have end1: "main (fold ?f (replicate (Suc (length files)) Main) ?s1) = Returned None"
  proof (cases "main ?s1")
    case (Draining k)
    with inv1 have "k < Suc (length files)" by (simp add: all_ok_inv_def)
    from drain [OF ok inv1 f1 Draining this] show ?thesis .
  next
    case (Returned r)
    with inv1 have "main ?s1 = Returned None" by (simp add: all_ok_inv_def)
    then show ?thesis by (rule returned_stable_fold)
  qed
  have "Client_Files c urls files h (sched @ run_to_end files) =
      fold ?f (replicate (Suc (length files)) Main) ?s1"
    by (simp add: Client_Files_def run_to_end_def)
  with end1 show "main (Client_Files c urls files h (sched @ run_to_end files)) = Returned None"
    by simp
  show "main ?s0 = Returned r \<longrightarrow>
            r = None \<and>
            (\<forall>i<length urls. \<exists>a. files ! i = Some a \<and>
               Client_Bytes c (urls ! i) = (Data (heap ?s0 a), None))"
  proof
    assume ret: "main ?s0 = Returned r"
    with inv0 have r: "r = None" and fc: "finished_count ?s0 = length (tasks ?s0)"
      and len: "length (tasks ?s0) = length files"
      by (simp_all add: all_ok_inv_def)
    have "\<exists>a. files ! i = Some a \<and> Client_Bytes c (urls ! i) = (Data (heap ?s0 a), None)"
      if i: "i < length urls" for i
    proof -
      from i assms(1) have il: "i < length files" by simp
      with len have "tasks ?s0 ! i = Finished" by (intro all_finished [OF fc]) simp
      with inv0 il have "fetched c urls files (heap ?s0) i" by (auto simp: all_ok_inv_def)
      moreover from assms(4) i have "snd (Client_Bytes c (urls ! i)) = None" by simp
      ultimately show ?thesis
        by (auto simp: fetched_def prod_eq_iff split: option.splits)
    qed
    with r show "r = None \<and>
            (\<forall>i<length urls. \<exists>a. files ! i = Some a \<and>
               Client_Bytes c (urls ! i) = (Data (heap ?s0 a), None))"
      by blast
  qed
qed

theorem Files_all_succeed_witness:
  "length [Some (0::nat), Some 1] = length [''http://a/1'', ''http://a/2'']
   \<and> distinct [Some (0::nat), Some 1]
   \<and> snd (Client_Bytes file_server ''http://a/1'') = None
   \<and> snd (Client_Bytes file_server ''http://a/2'') = None
   \<and> main (Client_Files file_server [''http://a/1'', ''http://a/2''] [Some 0, Some 1] empty_heap
        ([Task 1, Main, Task 0] @ run_to_end [Some 0, Some 1])) = Returned None
   \<and> main (Client_Files file_server [''http://a/1'', ''http://a/2''] [Some 0, Some 1] empty_heap
        [Task 1, Task 0, Task 1, Task 0, Main, Main, Main]) = Returned None
   \<and> Data (heap (Client_Files file_server [''http://a/1'', ''http://a/2''] [Some 0, Some 1]
        empty_heap [Task 1, Task 0, Task 1, Task 0, Main, Main, Main]) 0) = ''one''
   \<and> Data (heap (Client_Files file_server [''http://a/1'', ''http://a/2''] [Some 0, Some 1]
        empty_heap [Task 1, Task 0, Task 1, Task 0, Main, Main, Main]) 1) = ''two''"
proof -
  let ?urls = "[''http://a/1'', ''http://a/2'']"
  let ?files = "[Some (0::nat), Some 1]"
  let ?sched = "[Task 1, Task 0, Task 1, Task 0, Main, Main, Main]"
  let ?s = "Client_Files file_server ?urls ?files empty_heap ?sched"
  have 1: "length ?files = length ?urls" and 2: "distinct ?files"
    and 3: "\<forall>f\<in>set ?files. f \<noteq> None"
    and 4: "\<forall>u\<in>set ?urls. snd (Client_Bytes file_server u) = None"
    by (simp_all add: file_server_1 file_server_2)
  have ret: "main ?s = Returned None"
    by (simp add: Client_Files_def Files_init_def step_def run_task_def Client_Get_def
        file_server_def page_def ReadAll_def main_step_def)
  from Files_all_succeed [OF 1 2 3 4, of empty_heap "[Task 1, Main, Task 0]"]
  have end1: "main (Client_Files file_server ?urls ?files empty_heap
        ([Task 1, Main, Task 0] @ run_to_end ?files)) = Returned None"
    by simp
  from Files_all_succeed [OF 1 2 3 4, of empty_heap ?sched None] ret
  have all: "\<forall>i<length ?urls. \<exists>a. ?files ! i = Some a \<and>
      Client_Bytes file_server (?urls ! i) = (Data (heap ?s a), None)"
    by blast
  from all [THEN spec, of 0] have "\<exists>a. ?files ! 0 = Some a \<and>
      Client_Bytes file_server (?urls ! 0) = (Data (heap ?s a), None)"
    by simp
  then have d0: "Data (heap ?s 0) = ''one''" by (simp add: file_server_1)
  from all [THEN spec, of 1] have "\<exists>a. ?files ! 1 = Some a \<and>
      Client_Bytes file_server (?urls ! 1) = (Data (heap ?s a), None)"
    by simp
  then have d1: "Data (heap ?s 1) = ''two''" by (simp add: file_server_2)
  from 1 2 end1 ret d0 d1 show ?thesis by (simp add: file_server_1 file_server_2)
qed

text \<open>
  C7 as stated fails: when two elements of \<open>files\<close> are the same pointer, both goroutines
  write the same file and the first slot ends with the body of the second URL; and with
  an empty slice of files the call succeeds having fetched nothing.
\<close>

theorem Files_all_succeed_counterexample:
  "snd (Client_Bytes file_server ''http://a/1'') = None
   \<and> snd (Client_Bytes file_server ''http://a/2'') = None
   \<and> main (Client_Files file_server [''http://a/1'', ''http://a/2''] [Some 0, Some 0] empty_heap
        [Task 0, Task 1, Task 0, Task 1, Main, Main, Main]) = Returned None
   \<and> Data (heap (Client_Files file_server [''http://a/1'', ''http://a/2''] [Some 0, Some 0]
        empty_heap [Task 0, Task 1, Task 0, Task 1, Main, Main, Main]) 0) = ''two''
   \<and> fst (Client_Bytes file_server ''http://a/1'') = ''one''
   \<and> main (Client_Files file_server [''http://a/1'', ''http://a/2''] [] empty_heap [Main])
       = Returned None
   \<and> gets (Client_Files file_server [''http://a/1'', ''http://a/2''] [] empty_heap [Main]) = []"
  by (simp add: file_server_1 file_server_2)
     (simp add: Client_Files_def Files_init_def step_def run_task_def Client_Get_def
        file_server_def page_def ReadAll_def main_step_def)

text \<open>
  C8, as the code has it. An error of the transport is returned as it is by every operation,
  with no result. A status other than 200 makes every operation return an \<open>*Error\<close> and no
  result (the target of JSON and XML untouched). A failure to read a body of status 200 is
  returned as it is by \<open>Bytes\<close>, together with the bytes read before it, and by \<open>String\<close>
  with an empty string. An error that \<open>Files\<close> returns is an \<open>*Error\<close> or an error of the
  transport.
\<close>

theorem failures_by_cause:
  "(client_Get c url = Inl m \<longrightarrow>
      Client_Bytes c url = ([], Some (TransportError m))
      \<and> Client_String c url = ([], Some (TransportError m))
      \<and> Client_Reader c url = (None, Some (TransportError m))
      \<and> Client_JSON c url v = (v, Some (TransportError m))
      \<and> Client_XML c url v = (v, Some (TransportError m)))
   \<and> (client_Get c url = Inr resp \<and> RespStatusCode resp \<noteq> 200 \<longrightarrow>
      is_Error (Client_err resp [])
      \<and> Client_Bytes c url = ([], Some (Client_err resp []))
      \<and> Client_String c url = ([], Some (Client_err resp []))
      \<and> Client_Reader c url = (None, Some (Client_err resp []))
      \<and> Client_JSON c url v = (v, Some (Client_err resp []))
      \<and> Client_XML c url v = (v, Some (Client_err resp [])))
   \<and> (client_Get c url = Inr resp \<and> RespStatusCode resp = 200 \<and> read_error (Body resp) = Some m \<longrightarrow>
      Client_Bytes c url = (content (Body resp), Some (ReadError m))
      \<and> Client_String c url = ([], Some (ReadError m)))
   \<and> (main (Client_Files c urls files h sched) = Returned (Some e) \<longrightarrow>
      is_Error e \<or> is_TransportError e)"
proof (intro conjI impI)
  assume "main (Client_Files c urls files h sched) = Returned (Some e)"
  then show "is_Error e \<or> is_TransportError e" by (rule Files_error_reported)
qed (simp_all add: Client_Bytes_def Client_String_def Client_Reader_def Client_JSON_def
    Client_XML_def Client_Get_def ReadAll_def Client_err_is_Error)

theorem failures_by_cause_witness:
  "client_Get file_server ''http://b/'' = Inl ''no such host''
   \<and> Client_Reader file_server ''http://b/'' = (None, Some (TransportError ''no such host''))
   \<and> client_Get file_server ''http://a/gone'' = Inr (page 404 ''http://a/gone'' ''not found'' None)
   \<and> Client_String file_server ''http://a/gone'' =
       ([], Some (Client_err (page 404 ''http://a/gone'' ''not found'' None) []))
   \<and> is_Error (Client_err (page 404 ''http://a/gone'' ''not found'' None) [])
   \<and> Client_String file_server ''http://a/cut'' = ([], Some (ReadError ''unexpected EOF''))
   \<and> main (Client_Files file_server [''http://b/''] [Some 0] empty_heap [Task 0, Task 0, Main]) =
       Returned (Some (TransportError ''no such host''))
   \<and> is_TransportError (TransportError ''no such host'')"
proof -
  have b: "client_Get file_server ''http://b/'' = Inl ''no such host''"
    by (simp add: file_server_def)
  have g: "client_Get file_server ''http://a/gone'' =
      Inr (page 404 ''http://a/gone'' ''not found'' None)"
    by (simp add: file_server_def)
  have gs: "RespStatusCode (page 404 ''http://a/gone'' ''not found'' None) \<noteq> 200"
    by (simp add: page_def)
  have cs: "RespStatusCode (page 200 ''http://a/cut'' ''par'' (Some ''unexpected EOF'')) = 200"
    "read_error (Body (page 200 ''http://a/cut'' ''par'' (Some ''unexpected EOF''))) =
        Some ''unexpected EOF''"
    by (simp_all add: page_def)
  have run: "main (Client_Files file_server [''http://b/''] [Some 0] empty_heap
      [Task 0, Task 0, Main]) = Returned (Some (TransportError ''no such host''))"
    by (simp add: Client_Files_def Files_init_def step_def run_task_def Client_Get_def b
        main_step_def)
  from failures_by_cause [of file_server "''http://b/''" "''no such host''" "[]" _
      "[''http://b/'']" "[Some 0]" empty_heap "[Task 0, Task 0, Main]"
      "TransportError ''no such host''"] b run
  have 1: "Client_Reader file_server ''http://b/'' = (None, Some (TransportError ''no such host''))"
    "is_TransportError (TransportError ''no such host'')"
    by simp_all
  from failures_by_cause [of file_server "''http://a/gone''" _ "[]"
      "page 404 ''http://a/gone'' ''not found'' None"] g gs
  have 2: "Client_String file_server ''http://a/gone'' =
       ([], Some (Client_err (page 404 ''http://a/gone'' ''not found'' None) []))"
    "is_Error (Client_err (page 404 ''http://a/gone'' ''not found'' None) [])"
    by simp_all
  from failures_by_cause [of file_server "''http://a/cut''" "''unexpected EOF''" "[]"
      "page 200 ''http://a/cut'' ''par'' (Some ''unexpected EOF'')"] file_server_cut cs
  have 3: "Client_String file_server ''http://a/cut'' = ([], Some (ReadError ''unexpected EOF''))"
    by simp
  from b g 1 2 3 run show ?thesis by simp
qed

text \<open>
  C8 as stated fails: when the host does not resolve, \<open>Bytes\<close> returns the error of the
  transport, which is no \<open>*Error\<close>; and when the body breaks off, it returns the bytes read
  so far together with the reader's error.
\<close>

theorem failure_not_FetchError_counterexample:
  "Client_Bytes file_server ''http://b/'' = ([], Some (TransportError ''no such host''))
   \<and> \<not> is_Error (TransportError ''no such host'')
   \<and> Client_Bytes file_server ''http://a/cut'' = (''par'', Some (ReadError ''unexpected EOF''))
   \<and> \<not> is_Error (ReadError ''unexpected EOF'')"
  by (simp add: Client_Bytes_def Client_Get_def file_server_def page_def ReadAll_def)

text \<open>
  C9. \<open>Files\<close> is free of panics for every client, heap and schedule exactly when \<open>files\<close>
  is no longer than \<open>urls\<close> and no element of \<open>files\<close> is nil. When \<open>files\<close> is longer,
  the goroutine of index \<open>len(urls)\<close> panics on \<open>urls[i]\<close>; when \<open>files[i]\<close> is nil and
  the response to \<open>urls[i]\<close> has status 200, the goroutine of index \<open>i\<close> panics on
  \<open>files[i].Data\<close>.
\<close>

theorem Files_panic_free_iff:
  "((\<forall>(c' :: 'v Client) h' sched. crashed (Client_Files c' urls files h' sched) = None)
      \<longleftrightarrow> length files \<le> length urls \<and> (\<forall>f\<in>set files. f \<noteq> None))
   \<and> (length urls < length files \<longrightarrow>
        crashed (Client_Files (c :: 'v Client) urls files h [Task (length urls)])
          = Some IndexOutOfRange)
   \<and> (i < length files \<and> i < length urls \<and> files ! i = None
        \<and> client_Get c (urls ! i) = Inr resp \<and> RespStatusCode resp = 200 \<longrightarrow>
        crashed (Client_Files c urls files h [Task i]) = Some NilDereference)"
proof (intro conjI impI)
  show "(\<forall>(c' :: 'v Client) h' sched. crashed (Client_Files c' urls files h' sched) = None)
      \<longleftrightarrow> length files \<le> length urls \<and> (\<forall>f\<in>set files. f \<noteq> None)"
  proof
    assume free: "\<forall>(c' :: 'v Client) h' sched. crashed (Client_Files c' urls files h' sched) = None"
    define c0 :: "'v Client" where
      "c0 = \<lparr>client_Get = (\<lambda>url. Inr ok_response), json_Decode = (\<lambda>b v. (v, None)),
            xml_Decode = (\<lambda>b v. (v, None))\<rparr>"
    have len: "length files \<le> length urls"
    proof (rule ccontr)
      assume "\<not> length files \<le> length urls"
      then have "length urls < length files" by simp
      from index_panic [OF this, of c0 empty_heap] free show False by simp
    qed
    have "f \<noteq> None" if "f \<in> set files" for f
    proof
      assume "f = None"
      with that obtain i where i: "i < length files" "files ! i = None"
        by (auto simp: in_set_conv_nth)
      with len have "i < length urls" by simp
      from nil_panic [OF i(1) this i(2), of c0 ok_response empty_heap] free show False
        by (simp add: c0_def ok_response_def)
    qed
    with len show "length files \<le> length urls \<and> (\<forall>f\<in>set files. f \<noteq> None)" by blast
  next
    assume "length files \<le> length urls \<and> (\<forall>f\<in>set files. f \<noteq> None)"
    then show "\<forall>(c' :: 'v Client) h' sched. crashed (Client_Files c' urls files h' sched) = None"
      by (simp add: Client_Files_def fold_step_no_crash Files_init_def)
  qed
next
  assume "length urls < length files"
  then show "crashed (Client_Files c urls files h [Task (length urls)]) = Some IndexOutOfRange"
    by (rule index_panic)
next
  assume "i < length files \<and> i < length urls \<and> files ! i = None
        \<and> client_Get c (urls ! i) = Inr resp \<and> RespStatusCode resp = 200"
  with nil_panic [of i files urls c resp h]
  show "crashed (Client_Files c urls files h [Task i]) = Some NilDereference"
    by simp
qed

theorem Files_panic_free_iff_witness:
  "crashed (Client_Files file_server [''http://a/1''] [Some 0] empty_heap [Task 0, Task 0, Main])
     = None
   \<and> crashed (Client_Files file_server [] [Some 0] empty_heap [Task 0]) = Some IndexOutOfRange
   \<and> crashed (Client_Files file_server [''http://a/1''] [None] empty_heap [Task 0])
       = Some NilDereference"
proof -
  have pre: "length [Some (0::nat)] \<le> length [''http://a/1'']
      \<and> (\<forall>f\<in>set [Some (0::nat)]. f \<noteq> None)"
    by simp
  have g: "client_Get file_server ([''http://a/1''] ! 0) = Inr (page 200 ''http://a/1'' ''one'' None)"
    by (simp add: file_server_def)
  have s: "RespStatusCode (page 200 ''http://a/1'' ''one'' None) = 200"
    by (simp add: page_def)
  from Files_panic_free_iff [where ?'v = string, of "[''http://a/1'']" "[Some 0]" file_server
      empty_heap 0 ok_response] pre
  have 1: "crashed (Client_Files file_server [''http://a/1''] [Some 0] empty_heap
      [Task 0, Task 0, Main]) = None"
    by blast
  from Files_panic_free_iff [where ?'v = string, of "[]" "[Some 0]" file_server
      empty_heap 0 ok_response]
  have 2: "crashed (Client_Files file_server [] [Some 0] empty_heap [Task 0]) = Some IndexOutOfRange"
    by simp
  from Files_panic_free_iff [where ?'v = string, of "[''http://a/1'']" "[None]" file_server
      empty_heap 0 "page 200 ''http://a/1'' ''one'' None"] g s
  have 3: "crashed (Client_Files file_server [''http://a/1''] [None] empty_heap [Task 0])
       = Some NilDereference"
    by simp
  from 1 2 3 show ?thesis by simp
qed

text \<open>
  C10, as the code has it. Let the response to \<open>urls[i]\<close> have status 200, let reading its
  body fail with the text \<open>m\<close>, and let \<open>files[i]\<close> be non-nil (the panic of a nil
  \<open>files[i]\<close> is the subject of C9). Then under every schedule
  the goroutine of index \<open>i\<close> reports an \<open>*Error\<close> whose \<open>StatusCode\<close> and \<open>URL\<close> are
  those of the response and whose message is \<open>m\<close> when \<open>m\<close> is not empty, and
  \<open>Get <URL> -> 200\<close> when it is: in whatever state it runs its body, this is the value
  it goes on to send; in every state a schedule reaches, a value it still has to send is
  this one; and its send puts the value it holds at the end of the channel. When that
  goroutine is the first to send, \<open>Files\<close> returns this error. \<open>Bytes\<close> on the same URL
  returns the reader's error as it is.
\<close>

theorem Files_read_error_report:
  assumes "i < length files" and "i < length urls" and "files ! i = Some a"
    and "client_Get c (urls ! i) = Inr resp" and "RespStatusCode resp = 200"
    and "read_error (Body resp) = Some m"
  defines "e \<equiv> HttpclientError
      \<lparr>Message = (if m = [] then ''Get '' @ RequestURL resp @ '' -> '' @ Sprintf_d 200 else m),
       StatusCode = 200, URL = RequestURL resp\<rparr>"
  shows "(crashed s = None \<and> i < length (tasks s) \<and> tasks s ! i = Launched \<longrightarrow>
            tasks (step c urls files (Task i) s) ! i = Sending (Some e)
            \<and> chan (step c urls files (Task i) s) = chan s
            \<and> crashed (step c urls files (Task i) s) = None)
       \<and> (crashed s = None \<and> i < length (tasks s) \<and> tasks s ! i = Sending r \<longrightarrow>
            tasks (step c urls files (Task i) s) ! i = Finished
            \<and> chan (step c urls files (Task i) s) = chan s @ [r])
       \<and> (tasks (Client_Files c urls files h sched) ! i = Sending r \<longrightarrow> r = Some e)
       \<and> main (Client_Files c urls files h [Task i, Task i, Main]) = Returned (Some e)
       \<and> Client_Bytes c (urls ! i) = (content (Body resp), Some (ReadError m))"
proof -
  have e: "Client_err resp m = e"
    using assms(5) by (simp add: Client_err_def e_def)
  have body: "tasks (step c urls files (Task i) s) ! i = Sending (Some e)
      \<and> chan (step c urls files (Task i) s) = chan s
      \<and> crashed (step c urls files (Task i) s) = None"
    if "crashed s = None \<and> i < length (tasks s) \<and> tasks s ! i = Launched" for s
    using that assms(1) run_task_read_error [OF assms(2-6), of s] e
    by (simp add: step_def)
  have send: "tasks (step c urls files (Task i) s) ! i = Finished
      \<and> chan (step c urls files (Task i) s) = chan s @ [r]"
    if "crashed s = None \<and> i < length (tasks s) \<and> tasks s ! i = Sending r" for s r
    using that assms(1) by (simp add: step_def)
  have inv: "tasks (Client_Files c urls files h sched) ! i = Sending r \<longrightarrow> r = Some e"
    using report_reachable [OF assms(2-6) assms(1), of h sched] e by simp
  let ?s0 = "Files_init files h"
  let ?s1 = "step c urls files (Task i) ?s0"
  let ?s2 = "step c urls files (Task i) ?s1"
  have s0: "crashed ?s0 = None \<and> i < length (tasks ?s0) \<and> tasks ?s0 ! i = Launched"
    using assms(1) by (simp add: Files_init_def)
  from body [OF s0] have s1: "crashed ?s1 = None \<and> i < length (tasks ?s1)
      \<and> tasks ?s1 ! i = Sending (Some e)"
    using assms(1) by (simp add: step_length_tasks Files_init_def)
  have ch1: "chan ?s1 = []" using body [OF s0] by (simp add: Files_init_def)
  have m1: "main ?s1 = Draining (length files)"
    by (simp add: step_def run_task_main Files_init_def split: task_state.splits)
  from send [OF s1] ch1 have ch2: "chan ?s2 = [Some e]" by simp
  have cr2: "crashed ?s2 = None" using s1 by (simp add: step_def)
  have m2: "main ?s2 = Draining (length files)" using s1 m1 by (simp add: step_def)
  have "main (step c urls files Main ?s2) = Returned (Some e)"
    using cr2 ch2 m2 assms(1) by (auto simp: step_def main_step_def)
  then have ret: "main (Client_Files c urls files h [Task i, Task i, Main]) = Returned (Some e)"
    by (simp add: Client_Files_def)
  have b: "Client_Bytes c (urls ! i) = (content (Body resp), Some (ReadError m))"
    using assms(4-6) by (simp add: Client_Bytes_def Client_Get_def ReadAll_def)
  from body [of s] send [of s r] inv ret b show ?thesis by blast
qed

theorem Files_read_error_report_witness:
  "client_Get file_server ([''http://a/1'', ''http://a/cut''] ! 1) =
        Inr (page 200 ''http://a/cut'' ''par'' (Some ''unexpected EOF''))
   \<and> tasks (Client_Files file_server [''http://a/1'', ''http://a/cut''] [Some 0, Some 1] empty_heap
        [Task 0, Task 0, Main]) = [Finished, Launched]
   \<and> tasks (Client_Files file_server [''http://a/1'', ''http://a/cut''] [Some 0, Some 1] empty_heap
        [Task 0, Task 0, Main, Task 1]) ! 1 =
       Sending (Some (HttpclientError \<lparr>Message = ''unexpected EOF'', StatusCode = 200,
                                         URL = ''http://a/cut''\<rparr>))
   \<and> main (Client_Files file_server [''http://a/1'', ''http://a/cut''] [Some 0, Some 1] empty_heap
        [Task 1, Task 1, Main]) =
       Returned (Some (HttpclientError \<lparr>Message = ''unexpected EOF'', StatusCode = 200,
                                         URL = ''http://a/cut''\<rparr>))
   \<and> Client_Bytes file_server ''http://a/cut'' = (''par'', Some (ReadError ''unexpected EOF''))"
proof -
  let ?urls = "[''http://a/1'', ''http://a/cut'']"
  let ?files = "[Some (0::nat), Some 1]"
  let ?resp = "page 200 ''http://a/cut'' ''par'' (Some ''unexpected EOF'')"
  let ?S = "Client_Files file_server ?urls ?files empty_heap [Task 0, Task 0, Main]"
  have g: "client_Get file_server (?urls ! 1) = Inr ?resp"
    by (simp add: file_server_cut)
  have 1: "(1::nat) < length ?files" and 2: "(1::nat) < length ?urls"
    and 3: "?files ! 1 = Some 1"
    and 4: "RespStatusCode ?resp = 200"
    and 5: "read_error (Body ?resp) = Some ''unexpected EOF''"
    by (simp_all add: page_def)
  have S: "tasks ?S = [Finished, Launched]" "crashed ?S = None"
    by (simp_all add: Client_Files_def Files_init_def step_def run_task_def Client_Get_def
        file_server_def page_def ReadAll_def main_step_def)
  have next1: "Client_Files file_server ?urls ?files empty_heap [Task 0, Task 0, Main, Task 1] =
      step file_server ?urls ?files (Task 1) ?S"
    by (simp add: Client_Files_def)
  note rep = Files_read_error_report [OF 1 2 3 g 4 5, where s = ?S and h = empty_heap]
  from rep S have a: "tasks (step file_server ?urls ?files (Task 1) ?S) ! 1 =
      Sending (Some (HttpclientError \<lparr>Message = ''unexpected EOF'', StatusCode = 200,
                                        URL = ''http://a/cut''\<rparr>))"
    by (simp add: page_def)
  from rep have d: "main (Client_Files file_server ?urls ?files empty_heap [Task 1, Task 1, Main]) =
      Returned (Some (HttpclientError \<lparr>Message = ''unexpected EOF'', StatusCode = 200,
                                        URL = ''http://a/cut''\<rparr>))"
    by (simp add: page_def)
  from rep have b: "Client_Bytes file_server ''http://a/cut'' =
      (''par'', Some (ReadError ''unexpected EOF''))"
    by (simp add: page_def)
  from g S(1) a d b show ?thesis by (simp only: next1)
qed

text \<open>
  C10 as stated fails when the text of the reader's error is empty: \<open>Client.err\<close> then
  puts its default message in its place.
\<close>

theorem Files_read_error_message_counterexample:
  "client_Get file_server ''http://a/mute'' = Inr (page 200 ''http://a/mute'' ''par'' (Some []))
   \<and> read_error (Body (page 200 ''http://a/mute'' ''par'' (Some []))) = Some []
   \<and> tasks (Client_Files file_server [''http://a/mute''] [Some 0] empty_heap [Task 0]) =
       [Sending (Some (HttpclientError \<lparr>Message = ''Get http://a/mute -> 200'', StatusCode = 200,
                                          URL = ''http://a/mute''\<rparr>))]
   \<and> ''Get http://a/mute -> 200'' \<noteq> []"
  by (simp add: Client_Files_def Files_init_def step_def run_task_def Client_Get_def
      file_server_def page_def ReadAll_def Client_err_def Sprintf_d_200)

end
